theory Spec2Isabelle
  imports Complex_Main
begin

section \<open>FTCS solver for the 1D diffusion equation\<close>

text \<open>
  The notebook \<^verbatim>\<open>diffusion_1D_fd_schemes.ipynb\<close> is a sequence of code cells that
  run top to bottom over shared variables. Each cell is modelled as a function on the
  values it reads and writes. Every Python or NumPy exception that a cell can raise is a
  branch of the model (\<open>Inl\<close>).

  Numbers: the notebook computes with Python floats. The arrays and scalars are modelled
  over \<^typ>\<open>real\<close>, that is, every arithmetic operation is taken to be exact: no
  rounding, no underflow, no overflow. Rounding is modelled separately, for the scalar
  \<open>s\<close> and for the number of grid nodes, in the section on binary64.

  What this means for the cells: the assembly, boundary, initialisation and marching
  cells branch on integers and on array shapes only, so their control flow in the model
  is that of the code. The parameter cell and the grid cell branch on computed floats
  (a zero divisor, the length of \<^verbatim>\<open>np.arange\<close>); there the model follows exact
  arithmetic, in which the grid always has \<open>n\<close> nodes, whereas in binary64 it has
  \<open>n + 1\<close> nodes for some \<open>n\<close> (lemma \<open>grid_len64_two\<close>) and the notebook then stops at
  \<^verbatim>\<open>U[0, :] = U_xt\<close>. For the notebook's own configuration both agree (lemma
  \<open>grid_len64_default\<close>). Statements about the whole run are therefore made at
  concrete configurations only (the notebook's own, and one with \<open>n = 0\<close>, where the run
  stops before the grid cell); the general statements are about the cells.
\<close>

subsection \<open>Errors and sequencing\<close>

datatype error = ZeroDivisionError | ValueError | IndexError

definition bindE :: "error + 'a \<Rightarrow> ('a \<Rightarrow> error + 'b) \<Rightarrow> error + 'b" where
  "bindE r f = (case r of Inl e \<Rightarrow> Inl e | Inr v \<Rightarrow> f v)"

text \<open>\<^verbatim>\<open>for i in <is>: <body>\<close>, with the loop stopping at the first exception.\<close>

fun for_loop :: "'i list \<Rightarrow> ('i \<Rightarrow> 'st \<Rightarrow> error + 'st) \<Rightarrow> 'st \<Rightarrow> error + 'st" where
  "for_loop [] body st = Inr st"
| "for_loop (i # is) body st = bindE (body i st) (for_loop is body)"

text \<open>\<^verbatim>\<open>range(k)\<close> for a Python int \<open>k\<close>: empty when \<open>k \<le> 0\<close>.\<close>

definition range_py :: "int \<Rightarrow> int list" where
  "range_py k = map int [0..<nat k]"

text \<open>True division \<^verbatim>\<open>a / b\<close>: raises on a zero divisor, for ints and floats alike.\<close>

definition truediv :: "real \<Rightarrow> real \<Rightarrow> error + real" where
  "truediv a b = (if b = 0 then Inl ZeroDivisionError else Inr (a / b))"

subsection \<open>NumPy arrays\<close>

type_synonym vector = "real list"
type_synonym matrix = "real list list"

text \<open>\<^verbatim>\<open>np.zeros((r, c))\<close> and \<^verbatim>\<open>np.zeros((r))\<close>: a negative dimension is a ValueError.\<close>

definition zeros2 :: "int \<Rightarrow> int \<Rightarrow> error + matrix" where
  "zeros2 r c = (if r < 0 \<or> c < 0 then Inl ValueError
                 else Inr (replicate (nat r) (replicate (nat c) 0)))"

definition zeros1 :: "int \<Rightarrow> error + vector" where
  "zeros1 r = (if r < 0 then Inl ValueError else Inr (replicate (nat r) 0))"

text \<open>
  An index \<open>i\<close> into an axis of length \<open>len\<close>: valid when \<open>-len \<le> i < len\<close>, a negative
  index counting from the end; anything else is an IndexError.
\<close>

definition norm_index :: "nat \<Rightarrow> int \<Rightarrow> error + nat" where
  "norm_index len i =
     (if 0 \<le> i \<and> i < int len then Inr (nat i)
      else if i < 0 \<and> - int len \<le> i then Inr (nat (i + int len))
      else Inl IndexError)"

text \<open>\<^verbatim>\<open>M[i, j] = v\<close>\<close>

definition setitem2 :: "matrix \<Rightarrow> int \<Rightarrow> int \<Rightarrow> real \<Rightarrow> error + matrix" where
  "setitem2 M i j v =
     bindE (norm_index (length M) i) (\<lambda>i'.
     bindE (norm_index (length (M ! i')) j) (\<lambda>j'.
     Inr (M[i' := (M ! i')[j' := v]])))"

text \<open>\<^verbatim>\<open>M[i] = v\<close> for a scalar \<open>v\<close>: the whole row \<open>i\<close> is filled with \<open>v\<close>.\<close>

definition setrow_scalar :: "matrix \<Rightarrow> int \<Rightarrow> real \<Rightarrow> error + matrix" where
  "setrow_scalar M i v =
     bindE (norm_index (length M) i) (\<lambda>i'.
     Inr (M[i' := replicate (length (M ! i')) v]))"

text \<open>
  \<^verbatim>\<open>M[i, :] = u\<close> for a one-dimensional \<open>u\<close>: \<open>u\<close> must have the row's length, or
  length one (then it is broadcast); any other length is a ValueError.
\<close>

definition setrow :: "matrix \<Rightarrow> int \<Rightarrow> vector \<Rightarrow> error + matrix" where
  "setrow M i u =
     bindE (norm_index (length M) i) (\<lambda>i'.
     if length u = length (M ! i') then Inr (M[i' := u])
     else if length u = 1 then Inr (M[i' := replicate (length (M ! i')) (hd u)])
     else Inl ValueError)"

text \<open>\<^verbatim>\<open>v[i]\<close> and \<^verbatim>\<open>v[i] = a\<close> on a one-dimensional array.\<close>

definition getitem1 :: "vector \<Rightarrow> int \<Rightarrow> error + real" where
  "getitem1 v i = bindE (norm_index (length v) i) (\<lambda>i'. Inr (v ! i'))"

definition setitem1 :: "vector \<Rightarrow> int \<Rightarrow> real \<Rightarrow> error + vector" where
  "setitem1 v i a = bindE (norm_index (length v) i) (\<lambda>i'. Inr (v[i' := a]))"

text \<open>\<^verbatim>\<open>u[:, np.newaxis]\<close>: a vector of length \<open>n\<close> as an \<open>n \<times> 1\<close> column.\<close>

definition newaxis :: "vector \<Rightarrow> matrix" where
  "newaxis u = map (\<lambda>a. [a]) u"

text \<open>\<^verbatim>\<open>M.flatten()\<close>: the rows one after the other.\<close>

definition flatten :: "matrix \<Rightarrow> vector" where
  "flatten M = concat M"

definition ncols :: "matrix \<Rightarrow> nat" where
  "ncols M = (case M of [] \<Rightarrow> 0 | r # _ \<Rightarrow> length r)"

definition column :: "matrix \<Rightarrow> nat \<Rightarrow> vector" where
  "column M j = map (\<lambda>r. r ! j) M"

definition dot :: "vector \<Rightarrow> vector \<Rightarrow> real" where
  "dot u v = sum_list (map2 (*) u v)"

text \<open>
  \<^verbatim>\<open>np.matmul(P, Q)\<close> for two-dimensional arrays: the inner dimensions must agree,
  else a ValueError.
\<close>

definition matmul :: "matrix \<Rightarrow> matrix \<Rightarrow> error + matrix" where
  "matmul P Q =
     (if ncols P \<noteq> length Q then Inl ValueError
      else Inr (map (\<lambda>row. map (\<lambda>j. dot row (column Q j)) [0..<ncols Q]) P))"

text \<open>
  \<^verbatim>\<open>P + Q\<close> for two-dimensional arrays of one shape. The notebook only ever adds two
  \<open>n \<times> 1\<close> arrays; shapes that differ are reported as a ValueError here.
\<close>

definition add2 :: "matrix \<Rightarrow> matrix \<Rightarrow> error + matrix" where
  "add2 P Q =
     (if length P = length Q \<and> (\<forall>(p, q) \<in> set (zip P Q). length p = length q)
      then Inr (map2 (map2 (+)) P Q) else Inl ValueError)"

text \<open>
  \<^verbatim>\<open>np.arange(start, stop, step)\<close>: \<open>\<lceil>(stop - start) / step\<rceil>\<close> values
  \<open>start + j * step\<close> (none when that count is not positive); a zero step raises.
\<close>

definition arange :: "real \<Rightarrow> real \<Rightarrow> real \<Rightarrow> error + vector" where
  "arange start stop step =
     (if step = 0 then Inl ZeroDivisionError
      else Inr (map (\<lambda>j. start + real j * step) [0..<nat \<lceil>(stop - start) / step\<rceil>]))"

subsection \<open>Cell: solution space and parameters\<close>

text \<open>
  \<^verbatim>\<open>
  x0 = 0; xL = 1; L = xL-x0
  n = 39; dX = L/(n+1)
  m = 600; T = 12000; dT = T/m
  kappa = 10**(-5)
  s = kappa*dT/(dX**2)
  \<close>
  The literals of the cell are the fields of \<open>config\<close>; \<open>default_config\<close> holds the
  values the notebook assigns. The divisions are exact here: a divisor is zero only when
  it is zero as a number, and no quotient is out of range. On floats \<^verbatim>\<open>dX**2\<close> can
  also underflow to zero and \<^verbatim>\<open>T/m\<close> can raise OverflowError; no theorem below
  says of a configuration in general that this cell returns.
\<close>

record config =
  x0 :: real
  xL :: real
  n :: int
  m :: int
  T :: real
  kappa :: real

definition default_config :: config where
  "default_config = \<lparr>x0 = 0, xL = 1, n = 39, m = 600, T = 12000, kappa = 1 / 10 ^ 5\<rparr>"

record params =
  L :: real
  dX :: real
  dT :: real
  s :: real

definition parameters :: "config \<Rightarrow> error + params" where
  "parameters c =
     (let l = xL c - x0 c in
      bindE (truediv l (of_int (n c + 1))) (\<lambda>dx.
      bindE (truediv (T c) (of_int (m c))) (\<lambda>dt.
      bindE (truediv (kappa c * dt) (dx ^ 2)) (\<lambda>sv.
      Inr \<lparr>L = l, dX = dx, dT = dt, s = sv\<rparr>))))"

subsection \<open>Cell: the matrix A and the vector B\<close>

text \<open>
  \<^verbatim>\<open>
  A = np.zeros((n,n))
  for i in range(n):
      if i == 0:
          A[i, i] = 1-(2*s)
          A[i, i+1] = s
      elif i == n-1:
          A[i, i-1] = s
          A[i, i] = 1-(2*s)
      else:
          A[i, i] = 1-(2*s)
          A[i, i-1] = s
          A[i, i+1] = s
  B = np.zeros((n, 1))
  \<close>
\<close>

definition assemble_row :: "int \<Rightarrow> real \<Rightarrow> int \<Rightarrow> matrix \<Rightarrow> error + matrix" where
  "assemble_row nn sv i A =
     (if i = 0 then
        bindE (setitem2 A i i (1 - (2 * sv))) (\<lambda>A.
        setitem2 A i (i + 1) sv)
      else if i = nn - 1 then
        bindE (setitem2 A i (i - 1) sv) (\<lambda>A.
        setitem2 A i i (1 - (2 * sv)))
      else
        bindE (setitem2 A i i (1 - (2 * sv))) (\<lambda>A.
        bindE (setitem2 A i (i - 1) sv) (\<lambda>A.
        setitem2 A i (i + 1) sv)))"

definition assemble_A :: "int \<Rightarrow> real \<Rightarrow> error + matrix" where
  "assemble_A nn sv =
     bindE (zeros2 nn nn) (\<lambda>A. for_loop (range_py nn) (assemble_row nn sv) A)"

definition assemble :: "int \<Rightarrow> real \<Rightarrow> error + matrix \<times> matrix" where
  "assemble nn sv =
     bindE (assemble_A nn sv) (\<lambda>A.
     bindE (zeros2 nn 1) (\<lambda>B.
     Inr (A, B)))"

subsection \<open>Cell: boundary conditions\<close>

text \<open>
  \<^verbatim>\<open>
  # apply Dirichlet BCs
  B[0] = s
  B[n-1] = s
  \<close>
  (The Neumann lines of the cell are commented out.)
\<close>

definition apply_bcs :: "int \<Rightarrow> real \<Rightarrow> matrix \<Rightarrow> error + matrix" where
  "apply_bcs nn sv B =
     bindE (setrow_scalar B 0 sv) (\<lambda>B.
     setrow_scalar B (nn - 1) sv)"

subsection \<open>Cells: spatial grid and initial condition\<close>

text \<open>
  \<^verbatim>\<open>
  x = np.arange(x0+dX,xL,dX)
  t0 = 0
  U_xt = 100*np.sin(np.pi*x/L)
  \<close>
  The length of the grid is computed exactly here, from the exact \<open>dX\<close>; \<open>grid_len64\<close>
  is the length on floats.
\<close>

definition grid :: "config \<Rightarrow> params \<Rightarrow> error + vector" where
  "grid c p = arange (x0 c + dX p) (xL c) (dX p)"

definition t0 :: real where
  "t0 = 0"

definition initial_condition :: "params \<Rightarrow> vector \<Rightarrow> vector" where
  "initial_condition p x = map (\<lambda>xj. 100 * sin (pi * xj / L p)) x"

subsection \<open>Cell: solution matrices\<close>

text \<open>
  The variables the remaining cells work on. \<^verbatim>\<open>
  U = np.zeros((m,n))
  U[0, :] = U_xt
  t = np.zeros((m))
  t[0] = t0
  \<close>
\<close>

record state =
  A :: matrix
  B :: matrix
  U_xt :: vector
  U :: matrix
  t :: vector

definition initialize :: "config \<Rightarrow> matrix \<Rightarrow> matrix \<Rightarrow> vector \<Rightarrow> error + state" where
  "initialize c a b u0 =
     bindE (zeros2 (m c) (n c)) (\<lambda>u.
     bindE (setrow u 0 u0) (\<lambda>u.
     bindE (zeros1 (m c)) (\<lambda>tv.
     bindE (setitem1 tv 0 t0) (\<lambda>tv.
     Inr \<lparr>A = a, B = b, U_xt = u0, U = u, t = tv\<rparr>))))"

subsection \<open>Cell: march in time\<close>

text \<open>
  \<^verbatim>\<open>
  for i in range(m-1):
      U_xt_n = np.matmul(A, U_xt[:, np.newaxis]) + B
      U[i+1, :] = U_xt_n.flatten()
      U_xt = U_xt_n.flatten()
      t[i+1] = t[i] + dT
  \<close>
\<close>

definition march_step :: "real \<Rightarrow> int \<Rightarrow> state \<Rightarrow> error + state" where
  "march_step dt i st =
     bindE (matmul (A st) (newaxis (U_xt st))) (\<lambda>prod.
     bindE (add2 prod (B st)) (\<lambda>U_xt_n.
     bindE (setrow (U st) (i + 1) (flatten U_xt_n)) (\<lambda>u.
     bindE (getitem1 (t st) i) (\<lambda>ti.
     bindE (setitem1 (t st) (i + 1) (ti + dt)) (\<lambda>tv.
     Inr (st\<lparr>U_xt := flatten U_xt_n, U := u, t := tv\<rparr>))))))"

definition march :: "int \<Rightarrow> real \<Rightarrow> state \<Rightarrow> error + state" where
  "march mm dt st = for_loop (range_py (mm - 1)) (march_step dt) st"

subsection \<open>The notebook, top to bottom\<close>

definition run :: "config \<Rightarrow> error + state" where
  "run c =
     bindE (parameters c) (\<lambda>p.
     bindE (assemble (n c) (s p)) (\<lambda>(a, b).
     bindE (apply_bcs (n c) (s p) b) (\<lambda>b.
     bindE (grid c p) (\<lambda>x.
     bindE (initialize c a b (initial_condition p x)) (\<lambda>st.
     march (m c) (dT p) st)))))"

section \<open>The parameter cell in binary64\<close>

text \<open>
  Python's float is IEEE 754 binary64. The scalar \<open>s\<close> is computed by a few operations on
  floats, each of which returns the exact result rounded to the nearest binary64 value,
  ties to even. \<open>fl\<close> is that rounding on rationals, for values in the normal range
  (overflow and subnormal numbers are not modelled; the values of this cell are far from
  both). \<^verbatim>\<open>10**(-5)\<close> and \<^verbatim>\<open>dX**2\<close> are taken to be correctly rounded as well.
\<close>

text \<open>The number of binary digits of a positive integer.\<close>

function bits :: "int \<Rightarrow> int" where
  "bits k = (if k \<le> 0 then 0 else 1 + bits (k div 2))"
  by pat_completeness auto
termination
  by (relation "measure nat") auto

declare bits.simps [simp del]

definition pow2 :: "int \<Rightarrow> rat" where
  "pow2 e = (if 0 \<le> e then 2 ^ nat e else 1 / 2 ^ nat (- e))"

text \<open>The binary exponent of \<open>q > 0\<close>: the \<open>e\<close> with \<open>2\<^sup>e \<le> q < 2\<^sup>e\<^sup>+\<^sup>1\<close>.\<close>

definition expo :: "rat \<Rightarrow> int" where
  "expo q = (let d = (if 1 \<le> q then bits \<lfloor>q\<rfloor> - 1 else 1 - bits \<lfloor>1 / q\<rfloor>)
             in if pow2 d \<le> q then d else d - 1)"

text \<open>Rounding to the nearest integer, a tie going to the even one.\<close>

definition round_even :: "rat \<Rightarrow> int" where
  "round_even q = (let f = \<lfloor>q\<rfloor>; r = q - of_int f in
     if r < 1 / 2 then f else if 1 / 2 < r then f + 1 else if even f then f else f + 1)"

text \<open>Rounding to 53 significant binary digits.\<close>

definition fl :: "rat \<Rightarrow> rat" where
  "fl q = (if q = 0 then 0
           else let u = pow2 (expo \<bar>q\<bar> - 52) in of_int (round_even (q / u)) * u)"

definition truediv64 :: "rat \<Rightarrow> rat \<Rightarrow> error + rat" where
  "truediv64 a b = (if b = 0 then Inl ZeroDivisionError else Inr (fl (a / b)))"

text \<open>
  The cell on floats, for integer literals \<open>x0\<close>, \<open>xL\<close>, \<open>n\<close>, \<open>m\<close>, \<open>T\<close>:
  \<^verbatim>\<open>dX = L/(n+1)\<close>, \<^verbatim>\<open>dT = T/m\<close>, \<^verbatim>\<open>kappa = 10**(-5)\<close>,
  \<^verbatim>\<open>s = kappa*dT/(dX**2)\<close>.
\<close>

definition s64 :: "int \<Rightarrow> int \<Rightarrow> int \<Rightarrow> int \<Rightarrow> int \<Rightarrow> error + rat" where
  "s64 x0i xLi ni mi Ti =
     (let l = xLi - x0i in
      bindE (truediv64 (of_int l) (of_int (ni + 1))) (\<lambda>dx.
      bindE (truediv64 (of_int Ti) (of_int mi)) (\<lambda>dt.
      let kap = fl (1 / 10 ^ 5) in
      truediv64 (fl (kap * dt)) (fl (dx * dx)))))"

text \<open>
  The number of grid nodes on floats: \<^verbatim>\<open>np.arange(x0+dX, xL, dX)\<close> has
  \<open>\<lceil>(xL - (x0+dX)) / dX\<rceil>\<close> elements, the difference and the quotient each rounded.
\<close>

definition grid_len64 :: "int \<Rightarrow> int \<Rightarrow> int \<Rightarrow> error + int" where
  "grid_len64 x0i xLi ni =
     bindE (truediv64 (of_int (xLi - x0i)) (of_int (ni + 1))) (\<lambda>dx.
     let start = fl (of_int x0i + dx) in
     bindE (truediv64 (fl (of_int xLi - start)) dx) (\<lambda>q.
     Inr \<lceil>q\<rceil>))"

section \<open>Closed forms\<close>

text \<open>
  The definitions of this section are not cells of the notebook. They name the values
  the cells are proved to compute, so that the theorems can speak of them.
\<close>

text \<open>Row \<open>i\<close> of the assembled matrix, and the matrix after the first \<open>k\<close> rows are written.\<close>

definition tri_row :: "nat \<Rightarrow> real \<Rightarrow> nat \<Rightarrow> vector" where
  "tri_row N sv i =
     map (\<lambda>j. if j = i then 1 - 2 * sv else if j = i + 1 \<or> i = j + 1 then sv else 0) [0..<N]"

definition partial_A :: "nat \<Rightarrow> real \<Rightarrow> nat \<Rightarrow> matrix" where
  "partial_A N sv k = map (\<lambda>i. if i < k then tri_row N sv i else replicate N 0) [0..<N]"

definition tridiag :: "nat \<Rightarrow> real \<Rightarrow> matrix" where
  "tridiag N sv = map (tri_row N sv) [0..<N]"

text \<open>The vector \<open>B\<close> after the boundary cell.\<close>

definition bvec :: "nat \<Rightarrow> real \<Rightarrow> matrix" where
  "bvec N sv = map (\<lambda>i. [if i = 0 \<or> Suc i = N then sv else 0]) [0..<N]"

text \<open>
  The value of \<^verbatim>\<open>(np.matmul(A, U_xt[:, np.newaxis]) + B).flatten()\<close> when the shapes
  agree (lemma \<open>march_step_ok\<close>).
\<close>

definition next_state :: "matrix \<Rightarrow> matrix \<Rightarrow> vector \<Rightarrow> vector" where
  "next_state a b u = map (\<lambda>i. dot (a ! i) u + b ! i ! 0) [0..<length a]"

text \<open>The shapes of the arrays when the marching cell starts: \<open>M\<close> steps, \<open>N\<close> nodes.\<close>

definition shaped :: "nat \<Rightarrow> nat \<Rightarrow> state \<Rightarrow> bool" where
  "shaped M N st \<longleftrightarrow>
     length (A st) = N \<and> ncols (A st) = N \<and>
     length (B st) = N \<and> (\<forall>r\<in>set (B st). length r = 1) \<and>
     length (U_xt st) = N \<and>
     length (U st) = M \<and> (\<forall>r\<in>set (U st). length r = N) \<and>
     length (t st) = M"

text \<open>One iteration of the marching loop without its checks, and \<open>j\<close> iterations.\<close>

definition pure_step :: "real \<Rightarrow> nat \<Rightarrow> state \<Rightarrow> state" where
  "pure_step dt k st =
     st\<lparr>U_xt := next_state (A st) (B st) (U_xt st),
        U := (U st)[Suc k := next_state (A st) (B st) (U_xt st)],
        t := (t st)[Suc k := t st ! k + dt]\<rparr>"

fun marched :: "real \<Rightarrow> nat \<Rightarrow> state \<Rightarrow> state" where
  "marched dt 0 st = st"
| "marched dt (Suc j) st = pure_step dt j (marched dt j st)"

text \<open>The initial condition on the grid, and the variables when the marching cell starts.\<close>

definition u_init :: "config \<Rightarrow> params \<Rightarrow> vector" where
  "u_init c p = initial_condition p (map (\<lambda>j. x0 c + dX p + real j * dX p) [0..<nat (n c)])"

definition state0 :: "config \<Rightarrow> params \<Rightarrow> state" where
  "state0 c p =
     \<lparr>A = tridiag (nat (n c)) (s p), B = bvec (nat (n c)) (s p), U_xt = u_init c p,
      U = (replicate (nat (m c)) (replicate (nat (n c)) 0))[0 := u_init c p],
      t = (replicate (nat (m c)) 0)[0 := t0]\<rparr>"

section \<open>Properties\<close>

subsection \<open>Sequencing, indices, ranges\<close>

lemma bindE_Inl: "bindE (Inl e) f = Inl e" by (simp add: bindE_def)
lemma bindE_Inr: "bindE (Inr v) f = f v" by (simp add: bindE_def)

lemma for_loop_append:
  "for_loop (xs @ ys) body st = bindE (for_loop xs body st) (for_loop ys body)"
  by (induction xs arbitrary: st) (auto simp: bindE_def split: sum.splits)

lemma range_py_Suc: "range_py (int (Suc k)) = range_py (int k) @ [int k]"
proof -
  have "nat (int (Suc k)) = Suc k" by simp
  then show ?thesis unfolding range_py_def by (simp del: of_nat_Suc)
qed

lemma norm_index_nat: "k < len \<Longrightarrow> norm_index len (int k) = Inr k"
  by (simp add: norm_index_def)

subsection \<open>Matrix assembly\<close>

lemma assemble_one: "assemble_A 1 sv = Inl IndexError"
  by (simp add: assemble_A_def zeros2_def range_py_def assemble_row_def setitem2_def
      norm_index_def bindE_def)

lemma length_tri_row: "length (tri_row N sv i) = N" by (simp add: tri_row_def)
lemma length_partial_A: "length (partial_A N sv k) = N" by (simp add: partial_A_def)
lemma nth_partial_A: "i < N \<Longrightarrow> partial_A N sv k ! i = (if i < k then tri_row N sv i else replicate N 0)"
  by (simp add: partial_A_def)

lemma setitem2_nat:
  "0 \<le> i \<Longrightarrow> i < int (length M) \<Longrightarrow> 0 \<le> j \<Longrightarrow> j < int (length (M ! nat i)) \<Longrightarrow>
   setitem2 M i j v = Inr (M[nat i := (M ! nat i)[nat j := v]])"
  by (simp add: setitem2_def norm_index_def bindE_Inr)

lemma partial_A_update: "k < N \<Longrightarrow> (partial_A N sv k)[k := tri_row N sv k] = partial_A N sv (Suc k)"
  by (auto intro!: nth_equalityI simp: nth_list_update partial_A_def less_Suc_eq)

lemma row_first: "2 \<le> N \<Longrightarrow> ((replicate N 0)[0 := 1 - 2 * sv])[Suc 0 := sv] = tri_row N sv 0"
  by (auto intro!: nth_equalityI simp: nth_list_update tri_row_def)

lemma row_last: "2 \<le> N \<Longrightarrow> k = N - 1 \<Longrightarrow> ((replicate N 0)[k - 1 := sv])[k := 1 - 2 * sv] = tri_row N sv k"
  by (auto intro!: nth_equalityI simp: nth_list_update tri_row_def)

lemma row_inner: "0 < k \<Longrightarrow> Suc k < N \<Longrightarrow> (((replicate N 0)[k := 1 - 2 * sv])[k - 1 := sv])[Suc k := sv] = tri_row N sv k"
  by (auto intro!: nth_equalityI simp: nth_list_update tri_row_def)

lemma assemble_row_step:
  assumes "2 \<le> N" "k < N"
  shows "assemble_row (int N) sv (int k) (partial_A N sv k) = Inr (partial_A N sv (Suc k))"
proof -
  let ?P = "partial_A N sv k"
  have up: "int k + 1 = int (Suc k)" by simp
  consider "k = 0" | "0 < k" "Suc k = N" | "0 < k" "Suc k < N" using assms by linarith
  then show ?thesis
  proof cases
    case 1
    have "assemble_row (int N) sv (int k) ?P =
          bindE (setitem2 ?P 0 0 (1 - 2 * sv)) (\<lambda>A. setitem2 A 0 1 sv)"
      using 1 by (simp add: assemble_row_def)
    also have "\<dots> = Inr (?P[0 := ((replicate N 0)[0 := 1 - 2 * sv])[Suc 0 := sv]])"
      using assms 1 by (simp add: setitem2_nat length_partial_A nth_partial_A bindE_Inr)
    also have "\<dots> = Inr (?P[k := tri_row N sv k])"
      using assms 1 row_first[of N sv] by simp
    finally show ?thesis using assms partial_A_update[of k N sv] by simp
  next
    case 2
    have dn: "int k - 1 = int (k - 1)" using 2 by simp
    have nm: "nat (int k - 1) = k - 1" by linarith
    have "assemble_row (int N) sv (int k) ?P =
          bindE (setitem2 ?P (int k) (int (k - 1)) sv) (\<lambda>A. setitem2 A (int k) (int k) (1 - 2 * sv))"
      using 2 unfolding assemble_row_def dn by auto
    also have "\<dots> = Inr (?P[k := ((replicate N 0)[k - 1 := sv])[k := 1 - 2 * sv]])"
      using assms 2 by (simp add: setitem2_nat length_partial_A nth_partial_A bindE_Inr nm)
    also have "\<dots> = Inr (?P[k := tri_row N sv k])"
    proof -
      have "((replicate N 0)[k - 1 := sv])[k := 1 - 2 * sv] = tri_row N sv k"
        by (rule row_last) (use assms 2 in auto)
      then show ?thesis by (simp only:)
    qed
    finally show ?thesis using assms partial_A_update[of k N sv] by simp
  next
    case 3
    have dn: "int k - 1 = int (k - 1)" using 3 by simp
    have nm: "nat (int k - 1) = k - 1" by linarith
    have ne: "int k \<noteq> int N - 1" using 3 by linarith
    have np: "nat (1 + int k) = Suc k" by linarith
    have "assemble_row (int N) sv (int k) ?P =
          bindE (setitem2 ?P (int k) (int k) (1 - 2 * sv)) (\<lambda>A.
          bindE (setitem2 A (int k) (int (k - 1)) sv) (\<lambda>A. setitem2 A (int k) (int (Suc k)) sv))"
      using 3 ne unfolding assemble_row_def dn up by simp
    also have "\<dots> = Inr (?P[k := (((replicate N 0)[k := 1 - 2 * sv])[k - 1 := sv])[Suc k := sv]])"
      using assms 3 by (simp add: setitem2_nat length_partial_A nth_partial_A bindE_Inr nm np)
    also have "\<dots> = Inr (?P[k := tri_row N sv k])"
      using assms 3 row_inner[of k N sv] by simp
    finally show ?thesis using assms partial_A_update[of k N sv] by simp
  qed
qed

lemma assemble_loop_prefix:
  assumes "2 \<le> N"
  shows "k \<le> N \<Longrightarrow> for_loop (range_py (int k)) (assemble_row (int N) sv) (partial_A N sv 0)
           = Inr (partial_A N sv k)"
proof (induction k)
  case 0
  show ?case by (simp add: range_py_def)
next
  case (Suc k)
  then have "k < N" "k \<le> N" by simp_all
  then show ?case
    using Suc.IH assms unfolding range_py_Suc for_loop_append
    by (simp add: bindE_Inr assemble_row_step)
qed

lemma assemble_A_tridiag: "2 \<le> N \<Longrightarrow> assemble_A (int N) sv = Inr (tridiag N sv)"
proof -
  assume N: "2 \<le> N"
  have z: "zeros2 (int N) (int N) = Inr (partial_A N sv 0)"
    by (simp add: zeros2_def partial_A_def map_replicate_const)
  have "partial_A N sv N = tridiag N sv" by (simp add: partial_A_def tridiag_def)
  then show ?thesis using assemble_loop_prefix[OF N, of N sv] 
    by (simp add: assemble_A_def z bindE_Inr)
qed

lemma nth_tridiag:
  "i < N \<Longrightarrow> j < N \<Longrightarrow> tridiag N sv ! i ! j = (if j = i then 1 - 2 * sv else if j = i + 1 \<or> i = j + 1 then sv else 0)"
  by (simp add: tridiag_def tri_row_def)

lemma assemble_A_negative: "nn < 0 \<Longrightarrow> assemble_A nn sv = Inl ValueError"
  by (simp add: assemble_A_def zeros2_def bindE_Inl)

lemma assemble_A_zero: "assemble_A 0 sv = Inr []"
  by (simp add: assemble_A_def zeros2_def bindE_Inr range_py_def)



text \<open>
  C4. With a single interior node the first branch of the loop body is taken for
  \<open>i = 0\<close> and writes \<^verbatim>\<open>A[0, 1]\<close>, which is out of range for a \<open>1 \<times> 1\<close> array: the
  assembly raises IndexError instead of returning the \<open>1 \<times> 1\<close> matrix. The
  boundary cell, run on a one-entry \<open>B\<close>, assigns \<open>s\<close> to the single entry twice.
\<close>

theorem assemble_single_node:
  "assemble_A 1 sv = Inl IndexError \<and> assemble 1 sv = Inl IndexError \<and>
   apply_bcs 1 sv [[0]] = Inr [[sv]]"
  by (simp add: assemble_def assemble_one bindE_Inl apply_bcs_def setrow_scalar_def
      norm_index_def bindE_Inr)

subsection \<open>Boundary conditions, parameters, grid\<close>

lemma setrow_scalar_nat:
  "0 \<le> i \<Longrightarrow> i < int (length M) \<Longrightarrow>
   setrow_scalar M i v = Inr (M[nat i := replicate (length (M ! nat i)) v])"
  by (simp add: setrow_scalar_def norm_index_def bindE_Inr)

lemma assemble_ok: "2 \<le> N \<Longrightarrow> assemble (int N) sv = Inr (tridiag N sv, replicate N [0])"
  by (simp add: assemble_def assemble_A_tridiag bindE_Inr zeros2_def)

lemma apply_bcs_ok: "1 \<le> N \<Longrightarrow> apply_bcs (int N) sv (replicate N [0]) = Inr (bvec N sv)"
proof -
  assume N: "1 \<le> N"
  have nm: "nat (int N - 1) = N - 1" by linarith
  have "apply_bcs (int N) sv (replicate N [0]) =
        Inr (((replicate N [0])[0 := [sv]])[N - 1 := [sv]])"
    using N by (simp add: apply_bcs_def setrow_scalar_nat bindE_Inr nm nth_list_update)
  also have "((replicate N [0])[0 := [sv]])[N - 1 := [sv]] = bvec N sv"
    using N by (auto intro!: nth_equalityI simp: bvec_def nth_list_update)
  finally show ?thesis .
qed

lemma apply_bcs_zero: "apply_bcs 0 sv [] = Inl IndexError"
  by (simp add: apply_bcs_def setrow_scalar_def norm_index_def bindE_def)

lemma grid_ok:
  assumes "parameters c = Inr p" "0 \<le> n c"
  shows "grid c p = Inr (map (\<lambda>j. x0 c + dX p + real j * dX p) [0..<nat (n c)])"
proof -
  have n1: "(of_int (n c + 1) :: real) \<noteq> 0" using assms(2) by (simp add: add_eq_0_iff)
  have l0: "xL c \<noteq> x0 c" using assms(1) n1
    by (auto simp: parameters_def truediv_def bindE_def Let_def split: if_splits)
  have dx: "dX p = (xL c - x0 c) / of_int (n c + 1)" using assms(1) n1
    by (auto simp: parameters_def truediv_def bindE_def Let_def split: if_splits)
  have dx0: "dX p \<noteq> 0" using dx l0 n1 by simp
  have "(xL c - (x0 c + dX p)) / dX p = (xL c - x0 c) / dX p - 1"
    using dx0 by (simp add: field_simps)
  also have "(xL c - x0 c) / dX p = of_int (n c + 1)"
    using l0 n1 by (simp add: dx)
  finally have "(xL c - (x0 c + dX p)) / dX p = of_int (n c)" by simp
  then show ?thesis using dx0 by (simp add: grid_def arange_def)
qed

lemma parameters_default:
  "parameters default_config = Inr \<lparr>L = 1, dX = 1 / 40, dT = 20, s = 8 / 25\<rparr>"
  by (simp add: parameters_def default_config_def truediv_def bindE_def Let_def power2_eq_square)

subsection \<open>One step of the marching loop\<close>

lemma column_newaxis: "column (newaxis u) 0 = u"
  by (simp add: column_def newaxis_def comp_def)

lemma matmul_newaxis:
  assumes "u \<noteq> []" "ncols a = length u"
  shows "matmul a (newaxis u) = Inr (map (\<lambda>row. [dot row u]) a)"
proof -
  have "ncols (newaxis u) = 1" using assms(1) by (cases u) (simp_all add: ncols_def newaxis_def)
  then show ?thesis using assms(2) column_newaxis
    by (simp add: matmul_def newaxis_def)
qed

lemma concat_add_columns:
  assumes "length a = length b" "\<forall>r\<in>set b. length r = 1"
  shows "concat (map2 (map2 (+)) (map (\<lambda>row. [g row]) a) b) = map2 (\<lambda>row r. g row + r ! 0) a b"
  using assms
proof (induction a b rule: list_induct2)
  case Nil
  show ?case by simp
next
  case (Cons x xs y ys)
  then obtain v where "y = [v]" by (cases y) auto
  then show ?case using Cons by simp
qed

lemma map2_as_index: "length a = length b \<Longrightarrow> map2 f a b = map (\<lambda>i. f (a ! i) (b ! i)) [0..<length a]"
  by (auto intro!: nth_equalityI)

lemma add2_columns:
  assumes "length a = length b" "\<forall>r\<in>set b. length r = 1"
  shows "\<exists>w. add2 (map (\<lambda>row. [g row]) a) b = Inr w \<and> flatten w = map (\<lambda>i. g (a ! i) + b ! i ! 0) [0..<length a]"
proof -
  have "\<forall>(p, q)\<in>set (zip (map (\<lambda>row. [g row]) a) b). length p = length q"
    using assms(2) by (auto simp: zip_map1 dest: set_zip_rightD)
  then have "add2 (map (\<lambda>row. [g row]) a) b = Inr (map2 (map2 (+)) (map (\<lambda>row. [g row]) a) b)"
    using assms(1) by (simp add: add2_def)
  moreover have "flatten (map2 (map2 (+)) (map (\<lambda>row. [g row]) a) b)
      = map (\<lambda>i. g (a ! i) + b ! i ! 0) [0..<length a]"
    unfolding flatten_def concat_add_columns[OF assms]
    by (rule map2_as_index[OF assms(1)])
  ultimately show ?thesis by blast
qed

lemma setrow_nat:
  "0 \<le> i \<Longrightarrow> i < int (length M) \<Longrightarrow> length u = length (M ! nat i) \<Longrightarrow>
   setrow M i u = Inr (M[nat i := u])"
  by (simp add: setrow_def norm_index_def bindE_Inr)

lemma getitem1_nat: "0 \<le> i \<Longrightarrow> i < int (length v) \<Longrightarrow> getitem1 v i = Inr (v ! nat i)"
  by (simp add: getitem1_def norm_index_def bindE_Inr)

lemma setitem1_nat: "0 \<le> i \<Longrightarrow> i < int (length v) \<Longrightarrow> setitem1 v i a = Inr (v[nat i := a])"
  by (simp add: setitem1_def norm_index_def bindE_Inr)

lemma march_step_ok:
  assumes sh: "shaped M N st" and N: "1 \<le> N" and k: "Suc k < M"
  shows "march_step dt (int k) st =
         Inr (st\<lparr>U_xt := next_state (A st) (B st) (U_xt st),
                 U := (U st)[Suc k := next_state (A st) (B st) (U_xt st)],
                 t := (t st)[Suc k := t st ! k + dt]\<rparr>)"
proof -
  let ?nx = "next_state (A st) (B st) (U_xt st)"
  have ne: "U_xt st \<noteq> []" using sh N by (auto simp: shaped_def)
  have mm: "matmul (A st) (newaxis (U_xt st)) = Inr (map (\<lambda>row. [dot row (U_xt st)]) (A st))"
    using sh by (intro matmul_newaxis ne) (simp add: shaped_def)
  obtain w where w: "add2 (map (\<lambda>row. [dot row (U_xt st)]) (A st)) (B st) = Inr w"
      and fw: "flatten w = ?nx"
    using add2_columns[of "A st" "B st" "\<lambda>row. dot row (U_xt st)"] sh
    unfolding next_state_def shaped_def by auto
  have ln: "length ?nx = N" using sh by (simp add: next_state_def shaped_def)
  have sr: "setrow (U st) (int k + 1) ?nx = Inr ((U st)[Suc k := ?nx])"
  proof -
    have "length ?nx = length (U st ! nat (int k + 1))"
      using sh k ln by (simp add: shaped_def nat_add_distrib)
    then have "setrow (U st) (int k + 1) ?nx = Inr ((U st)[nat (int k + 1) := ?nx])"
      using sh k by (intro setrow_nat) (auto simp: shaped_def)
    moreover have "nat (int k + 1) = Suc k" by linarith
    ultimately show ?thesis by simp
  qed
  have gi: "getitem1 (t st) (int k) = Inr (t st ! k)"
    using sh k by (simp add: getitem1_nat shaped_def)
  have si: "setitem1 (t st) (int k + 1) (t st ! k + dt) = Inr ((t st)[Suc k := t st ! k + dt])"
  proof -
    have "setitem1 (t st) (int k + 1) (t st ! k + dt) = Inr ((t st)[nat (int k + 1) := t st ! k + dt])"
      using sh k by (intro setitem1_nat) (auto simp: shaped_def)
    moreover have "nat (int k + 1) = Suc k" by linarith
    ultimately show ?thesis by simp
  qed
  show ?thesis
    unfolding march_step_def mm bindE_Inr w fw sr gi si ..
qed

subsection \<open>The marching loop\<close>

lemma pure_step_A: "A (pure_step dt k st) = A st" by (simp add: pure_step_def)
lemma pure_step_B: "B (pure_step dt k st) = B st" by (simp add: pure_step_def)

lemma marched_A: "A (marched dt j st) = A st" by (induction j) (simp_all add: pure_step_A)
lemma marched_B: "B (marched dt j st) = B st" by (induction j) (simp_all add: pure_step_B)

lemma length_next_state: "length (next_state a b u) = length a" by (simp add: next_state_def)

lemma shaped_pure_step: "shaped M N st \<Longrightarrow> shaped M N (pure_step dt k st)"
  by (auto simp: shaped_def pure_step_def length_next_state dest!: set_update_subset_insert[THEN subsetD])

lemma shaped_marched: "shaped M N st \<Longrightarrow> shaped M N (marched dt j st)"
  by (induction j) (simp_all add: shaped_pure_step)

lemma march_prefix:
  assumes "shaped M N st" "1 \<le> N"
  shows "j < M \<Longrightarrow> for_loop (range_py (int j)) (march_step dt) st = Inr (marched dt j st)"
proof (induction j)
  case 0
  show ?case by (simp add: range_py_def)
next
  case (Suc j)
  then have "j < M" "Suc j < M" by simp_all
  then show ?case
    using Suc.IH march_step_ok[OF shaped_marched[OF assms(1)] assms(2), where k=j and dt=dt and dt1=dt and j1=j]
    unfolding range_py_Suc for_loop_append
    by (simp add: bindE_Inr pure_step_def)
qed

lemma march_ok:
  assumes "shaped M N st" "1 \<le> N" "1 \<le> M"
  shows "march (int M) dt st = Inr (marched dt (M - 1) st)"
proof -
  have "int M - 1 = int (M - 1)" using assms(3) by simp
  then show ?thesis unfolding march_def using march_prefix[OF assms(1,2), of "M - 1" dt] assms(3)
    by simp
qed

lemma marched_U_xt: "U_xt (marched dt j st) = (next_state (A st) (B st) ^^ j) (U_xt st)"
  by (induction j) (simp_all add: pure_step_def marched_A marched_B)

lemma marched_U_length: "length (U (marched dt j st)) = length (U st)"
  by (induction j) (simp_all add: pure_step_def)

lemma marched_t_length: "length (t (marched dt j st)) = length (t st)"
  by (induction j) (simp_all add: pure_step_def)

lemma marched_U_row:
  "j < length (U st) \<Longrightarrow> i < length (U st) \<Longrightarrow>
   U (marched dt j st) ! i =
     (if 1 \<le> i \<and> i \<le> j then (next_state (A st) (B st) ^^ i) (U_xt st) else U st ! i)"
proof (induction j arbitrary: i)
  case 0
  show ?case by auto
next
  case (Suc j)
  then show ?case
    by (auto simp: pure_step_def marched_A marched_B marched_U_xt marched_U_length
        nth_list_update le_Suc_eq)
qed

lemma marched_t_row:
  "j < length (t st) \<Longrightarrow> i < length (t st) \<Longrightarrow>
   t (marched dt j st) ! i =
     (if 1 \<le> i \<and> i \<le> j then t st ! 0 + real i * dt else t st ! i)"
proof (induction j arbitrary: i)
  case 0
  show ?case by auto
next
  case (Suc j)
  have "t (marched dt j st) ! j = t st ! 0 + real j * dt"
    using Suc.IH[of j] Suc.prems by (cases j) auto
  then show ?case using Suc
    by (auto simp: pure_step_def marched_t_length nth_list_update le_Suc_eq algebra_simps)
qed

subsection \<open>The whole run\<close>

lemma length_u_init: "length (u_init c p) = nat (n c)"
  by (simp add: u_init_def initial_condition_def)

lemma initialize_ok:
  assumes "0 \<le> n c" "1 \<le> m c"
  shows "initialize c (tridiag (nat (n c)) (s p)) (bvec (nat (n c)) (s p)) (u_init c p) = Inr (state0 c p)"
proof -
  have z2: "zeros2 (m c) (n c) = Inr (replicate (nat (m c)) (replicate (nat (n c)) 0))"
    using assms by (simp add: zeros2_def)
  have z1: "zeros1 (m c) = Inr (replicate (nat (m c)) 0)"
    using assms by (simp add: zeros1_def)
  have sr: "setrow (replicate (nat (m c)) (replicate (nat (n c)) 0)) 0 (u_init c p)
            = Inr ((replicate (nat (m c)) (replicate (nat (n c)) 0))[0 := u_init c p])"
    using assms setrow_nat[of 0 "replicate (nat (m c)) (replicate (nat (n c)) 0)" "u_init c p"]
    by (simp add: length_u_init)
  have si: "setitem1 (replicate (nat (m c)) 0) 0 t0 = Inr ((replicate (nat (m c)) 0)[0 := t0])"
    using assms setitem1_nat[of 0 "replicate (nat (m c)) 0" t0] by simp
  show ?thesis unfolding initialize_def z2 z1 bindE_Inr sr si state0_def ..
qed

lemma ncols_tridiag: "1 \<le> N \<Longrightarrow> ncols (tridiag N sv) = N"
  by (cases N) (simp_all add: tridiag_def ncols_def upt_conv_Cons length_tri_row del: upt_Suc)

lemma shaped_state0:
  assumes "1 \<le> n c" "1 \<le> m c"
  shows "shaped (nat (m c)) (nat (n c)) (state0 c p)"
proof -
  have "ncols (tridiag (nat (n c)) (s p)) = nat (n c)" using assms by (simp add: ncols_tridiag)
  moreover have "length (tridiag (nat (n c)) (s p)) = nat (n c)" by (simp add: tridiag_def)
  ultimately show ?thesis
    by (auto simp: shaped_def state0_def bvec_def length_u_init
      dest!: set_update_subset_insert[THEN subsetD])
qed

lemma run_ok:
  assumes "2 \<le> n c" "1 \<le> m c" "parameters c = Inr p"
  shows "run c = Inr (marched (dT p) (nat (m c) - 1) (state0 c p))"
proof -
  have N: "2 \<le> nat (n c)" "int (nat (n c)) = n c" using assms(1) by simp_all
  have M: "int (nat (m c)) = m c" using assms(2) by simp
  have as: "assemble (n c) (s p) = Inr (tridiag (nat (n c)) (s p), replicate (nat (n c)) [0])"
    using assemble_ok[OF N(1), of "s p"] N(2) by simp
  have bc: "apply_bcs (n c) (s p) (replicate (nat (n c)) [0]) = Inr (bvec (nat (n c)) (s p))"
    using apply_bcs_ok[of "nat (n c)" "s p"] N by simp
  have gr: "grid c p = Inr (map (\<lambda>j. x0 c + dX p + real j * dX p) [0..<nat (n c)])"
    using grid_ok[OF assms(3)] assms(1) by simp
  have ini: "initialize c (tridiag (nat (n c)) (s p)) (bvec (nat (n c)) (s p)) (u_init c p)
             = Inr (state0 c p)"
    using initialize_ok assms by simp
  have ma: "march (m c) (dT p) (state0 c p) = Inr (marched (dT p) (nat (m c) - 1) (state0 c p))"
    using march_ok[OF shaped_state0, of c "dT p" p] assms M by simp
  show ?thesis
    unfolding run_def assms(3) bindE_Inr as bc gr split_conv u_init_def[symmetric] ini ma ..
qed

lemma dot_sum: "length r = length u \<Longrightarrow> dot r u = (\<Sum>j<length u. r ! j * u ! j)"
proof -
  assume l: "length r = length u"
  have "dot r u = sum_list (map (\<lambda>j. r ! j * u ! j) [0..<length u])"
    unfolding dot_def using map2_as_index[OF l, of "(*)"] l by simp
  also have "\<dots> = (\<Sum>j<length u. r ! j * u ! j)"
    by (simp add: sum_list_sum_nth atLeast0LessThan)
  finally show ?thesis .
qed

lemma nth_next_state:
  "i < length a \<Longrightarrow> length (a ! i) = length u \<Longrightarrow>
   next_state a b u ! i = (\<Sum>j<length u. a ! i ! j * u ! j) + b ! i ! 0"
  by (simp add: next_state_def dot_sum)

lemma state0_fields:
  "A (state0 c p) = tridiag (nat (n c)) (s p)"
  "B (state0 c p) = bvec (nat (n c)) (s p)"
  "U_xt (state0 c p) = u_init c p"
  "length (U (state0 c p)) = nat (m c)"
  "length (t (state0 c p)) = nat (m c)"
  by (simp_all add: state0_def)

lemma state0_row0: "1 \<le> m c \<Longrightarrow> U (state0 c p) ! 0 = u_init c p"
  by (simp add: state0_def)

lemma length_iterate: "length a = length u \<Longrightarrow> length ((next_state a b ^^ k) u) = length u"
  by (induction k) (simp_all add: length_next_state)

lemma final_U_row:
  assumes "1 \<le> m c" "k < nat (m c)"
  shows "U (marched dt (nat (m c) - 1) (state0 c p)) ! k
         = (next_state (tridiag (nat (n c)) (s p)) (bvec (nat (n c)) (s p)) ^^ k) (u_init c p)"
proof -
  have "nat (m c) - 1 < length (U (state0 c p))" "k < length (U (state0 c p))"
    using assms by (simp_all add: state0_fields)
  moreover have "k \<le> nat (m c) - 1" using assms by linarith
  ultimately show ?thesis
    using marched_U_row[where j="nat (m c) - 1" and i=k and st="state0 c p" and dt=dt] assms(1)
    by (cases "k = 0") (simp_all add: state0_fields state0_row0)
qed

lemma shaped_witness_three:
  "shaped 3 2 \<lparr>A = [[1/2, 1/4], [1/4, 1/2]], B = [[1/4], [1/4]], U_xt = [1, 2],
               U = [[1, 2], [0, 0], [0, 0]], t = [0, 0, 0]\<rparr>"
  by (simp add: shaped_def ncols_def)

text \<open>
  C1. From any state of the right shapes (\<open>A\<close> an \<open>N \<times> N\<close> matrix, \<open>B\<close> an \<open>N \<times> 1\<close>
  column, \<open>U\<close> with \<open>M \<ge> 1\<close> rows of which row \<open>0\<close> is the current state) the marching
  loop returns, leaves \<open>A\<close> and \<open>B\<close> as they were, and for every step index \<open>k\<close> with
  \<open>k + 1 < M\<close>: row \<open>k + 1\<close> of the result grid \<open>U\<close> is the matrix-vector product of \<open>A\<close>
  with row \<open>k\<close> plus \<open>B\<close>, entry by entry, and \<open>t[k+1] = t[k] + dT\<close>.
\<close>

theorem march_computes_recurrence:
  assumes sh: "shaped M N st" and rect: "\<forall>r\<in>set (A st). length r = N"
    and N: "1 \<le> N" and M: "1 \<le> M" and row0: "U st ! 0 = U_xt st"
  shows "\<exists>st'. march (int M) dt st = Inr st' \<and> A st' = A st \<and> B st' = B st \<and>
           (\<forall>k. k + 1 < M \<longrightarrow>
              length (U st' ! (k + 1)) = N \<and>
              (\<forall>i<N. U st' ! (k + 1) ! i =
                  (\<Sum>j<N. A st ! i ! j * U st' ! k ! j) + B st ! i ! 0) \<and>
              t st' ! (k + 1) = t st' ! k + dt)"
proof -
  let ?st = "marched dt (M - 1) st"
  let ?F = "next_state (A st) (B st)"
  have la: "length (A st) = N" and lu: "length (U_xt st) = N"
    and lU: "length (U st) = M" and lt: "length (t st) = M"
    using sh by (simp_all add: shaped_def)
  have r: "march (int M) dt st = Inr ?st" by (rule march_ok[OF sh N M])
  have j: "M - 1 < length (U st)" "M - 1 < length (t st)" using M lU lt by simp_all
  have row: "U ?st ! k = (?F ^^ k) (U_xt st)" if "k < M" for k
  proof -
    have "k < length (U st)" "k \<le> M - 1" using that lU by auto
    then show ?thesis
      using marched_U_row[OF j(1), where i=k and dt=dt] row0 by (cases "k = 0") simp_all
  qed
  have tim: "t ?st ! k = t st ! 0 + real k * dt" if "k < M" for k
  proof -
    have "k < length (t st)" "k \<le> M - 1" using that lt by auto
    then show ?thesis
      using marched_t_row[OF j(2), where i=k and dt=dt] by (cases "k = 0") simp_all
  qed
  have li: "length ((?F ^^ k) (U_xt st)) = N" for k
    using length_iterate[where a="A st" and u="U_xt st" and b="B st" and k=k] la lu by simp
  have "length (U ?st ! (k + 1)) = N \<and>
        (\<forall>i<N. U ?st ! (k + 1) ! i = (\<Sum>j<N. A st ! i ! j * U ?st ! k ! j) + B st ! i ! 0) \<and>
        t ?st ! (k + 1) = t ?st ! k + dt" if k: "k + 1 < M" for k
  proof -
    have k0: "k < M" using k by simp
    have rk1: "U ?st ! (k + 1) = ?F (U ?st ! k)" using row[OF k] row[OF k0] by simp
    have luk: "length (U ?st ! k) = N" unfolding row[OF k0] by (rule li)
    have "U ?st ! (k + 1) ! i = (\<Sum>j<N. A st ! i ! j * U ?st ! k ! j) + B st ! i ! 0"
      if i: "i < N" for i
    proof -
      have "A st ! i \<in> set (A st)" using i la by simp
      then have "length (A st ! i) = length (U ?st ! k)" using rect luk by simp
      then show ?thesis
        unfolding rk1
        using nth_next_state[where i=i and a="A st" and u="U ?st ! k" and b="B st"] i la luk
        by simp
    qed
    moreover have "length (U ?st ! (k + 1)) = N" unfolding rk1 by (simp add: length_next_state la)
    moreover have "t ?st ! (k + 1) = t ?st ! k + dt"
      using tim[OF k] tim[OF k0] by (simp add: algebra_simps)
    ultimately show ?thesis by blast
  qed
  then show ?thesis using r by (intro exI[of _ ?st]) (simp add: marched_A marched_B)
qed

theorem march_computes_recurrence_witness:
  "shaped 3 2 \<lparr>A = [[1/2, 1/4], [1/4, 1/2]], B = [[1/4], [1/4]], U_xt = [1, 2],
               U = [[1, 2], [0, 0], [0, 0]], t = [0, 0, 0]\<rparr> \<and>
   length ([[1/2, 1/4], [1/4, 1/2 :: real]] ! 0) = 2 \<and>
   length ([[1/2, 1/4], [1/4, 1/2 :: real]] ! 1) = 2 \<and>
   [[1, 2], [0, 0], [0, 0 :: real]] ! 0 = [1, 2] \<and>
   march 3 20 \<lparr>A = [[1/2, 1/4], [1/4, 1/2]], B = [[1/4], [1/4]], U_xt = [1, 2],
               U = [[1, 2], [0, 0], [0, 0]], t = [0, 0, 0]\<rparr>
     = Inr \<lparr>A = [[1/2, 1/4], [1/4, 1/2]], B = [[1/4], [1/4]], U_xt = [5/4, 21/16],
               U = [[1, 2], [5/4, 3/2], [5/4, 21/16]], t = [0, 20, 40]\<rparr> \<and>
   (21/16 :: real) = 1/4 * (5/4) + 1/2 * (3/2) + 1/4 \<and> (40 :: real) = 20 + 20"
proof -
  let ?st = "\<lparr>A = [[1/2, 1/4], [1/4, 1/2]], B = [[1/4], [1/4]], U_xt = [1, 2::real],
               U = [[1, 2], [0, 0], [0, 0]], t = [0, 0, 0]\<rparr>"
  have e: "march 3 20 ?st = Inr \<lparr>A = [[1/2, 1/4], [1/4, 1/2]], B = [[1/4], [1/4]], U_xt = [5/4, 21/16],
               U = [[1, 2], [5/4, 3/2], [5/4, 21/16]], t = [0, 20, 40]\<rparr>"
    by (simp add: march_def range_py_def march_step_def matmul_def newaxis_def ncols_def
        column_def dot_def add2_def flatten_def setrow_def getitem1_def setitem1_def
        norm_index_def bindE_def eval_nat_numeral upt_conv_Cons)
  have rect: "\<forall>r\<in>set (A ?st). length r = 2" by simp
  have r0: "U ?st ! 0 = U_xt ?st" by simp
  show ?thesis
    using march_computes_recurrence[OF shaped_witness_three rect _ _ r0, of 20]
      shaped_witness_three e
    by simp
qed

subsection \<open>Termination and shape of the result grid\<close>

lemma shaped_witness_state:
  "shaped 2 2 \<lparr>A = [[1/2, 1/4], [1/4, 1/2]], B = [[1/4], [1/4]], U_xt = [1, 2],
               U = [[1, 2], [0, 0]], t = [0, 0]\<rparr>"
  by (simp add: shaped_def ncols_def)

text \<open>
  C2. From any state of the right shapes with \<open>M \<ge> 1\<close> rows whose row \<open>0\<close> holds the
  initial condition (as the initialisation cell leaves it), the marching loop returns
  (no exception, no early exit). Its range has exactly \<open>M - 1\<close> indices; the grid \<open>U\<close>
  still has \<open>M\<close> rows, row \<open>0\<close> is untouched, row \<open>k\<close> is the \<open>k\<close>-th iterate of the step
  on row \<open>0\<close> for every \<open>k < M\<close>, the current state is the \<open>(M-1)\<close>-th iterate, and
  \<open>t[k] = t[0] + k dT\<close>.
\<close>

theorem march_runs_m_minus_1_steps:
  assumes "shaped M N st" "1 \<le> N" "1 \<le> M" and row0: "U st ! 0 = U_xt st"
  shows "\<exists>st'. march (int M) dt st = Inr st' \<and>
           length (range_py (int M - 1)) = M - 1 \<and>
           length (U st') = M \<and>
           U st' ! 0 = U st ! 0 \<and>
           (\<forall>k<M. U st' ! k = (next_state (A st) (B st) ^^ k) (U st ! 0)) \<and>
           U_xt st' = (next_state (A st) (B st) ^^ (M - 1)) (U st ! 0) \<and>
           (\<forall>k<M. t st' ! k = t st ! 0 + real k * dt)"
proof -
  let ?st = "marched dt (M - 1) st"
  have lU: "length (U st) = M" and lt: "length (t st) = M"
    using assms(1) by (simp_all add: shaped_def)
  have m: "march (int M) dt st = Inr ?st" by (rule march_ok[OF assms(1,2,3)])
  have r: "length (range_py (int M - 1)) = M - 1" by (simp add: range_py_def)
  have j: "M - 1 < length (U st)" "M - 1 < length (t st)" using assms(3) lU lt by simp_all
  have z: "0 < length (U st)" using assms(3) lU by simp
  have u0: "U ?st ! 0 = U st ! 0"
    using marched_U_row[OF j(1) z, where dt=dt] by simp
  have uk: "U ?st ! k = (next_state (A st) (B st) ^^ k) (U st ! 0)" if "k < M" for k
  proof (cases "k = 0")
    case True
    then show ?thesis using u0 by simp
  next
    case False
    have "k < length (U st)" "k \<le> M - 1" using that lU by auto
    then show ?thesis
      using marched_U_row[OF j(1), where i=k and dt=dt] False row0 by simp
  qed
  have tk: "t ?st ! k = t st ! 0 + real k * dt" if "k < M" for k
  proof -
    have "k < length (t st)" "k \<le> M - 1" using that lt by auto
    then show ?thesis using marched_t_row[OF j(2), where i=k and dt=dt] by (cases "k = 0") simp_all
  qed
  show ?thesis
    using m r u0 uk tk lU row0 by (intro exI[of _ ?st]) (simp add: marched_U_length marched_U_xt)
qed

theorem march_runs_m_minus_1_steps_witness:
  "shaped 2 2 \<lparr>A = [[1/2, 1/4], [1/4, 1/2]], B = [[1/4], [1/4]], U_xt = [1, 2],
               U = [[1, 2], [0, 0]], t = [0, 0]\<rparr> \<and>
   march 2 20 \<lparr>A = [[1/2, 1/4], [1/4, 1/2]], B = [[1/4], [1/4]], U_xt = [1, 2],
               U = [[1, 2], [0, 0]], t = [0, 0]\<rparr>
     = Inr \<lparr>A = [[1/2, 1/4], [1/4, 1/2]], B = [[1/4], [1/4]], U_xt = [5/4, 3/2],
               U = [[1, 2], [5/4, 3/2]], t = [0, 20]\<rparr> \<and>
   length (range_py (2 - 1)) = 1 \<and>
   [[1, 2], [0, 0 :: real]] ! 0 = [1, 2]"
proof -
  let ?st = "\<lparr>A = [[1/2, 1/4], [1/4, 1/2]], B = [[1/4], [1/4]], U_xt = [1, 2::real],
               U = [[1, 2], [0, 0]], t = [0, 0]\<rparr>"
  have e: "march 2 20 ?st = Inr \<lparr>A = [[1/2, 1/4], [1/4, 1/2]], B = [[1/4], [1/4]], U_xt = [5/4, 3/2],
               U = [[1, 2], [5/4, 3/2]], t = [0, 20]\<rparr>"
    by (simp add: march_def range_py_def march_step_def matmul_def newaxis_def ncols_def
        column_def dot_def add2_def flatten_def setrow_def getitem1_def setitem1_def
        norm_index_def bindE_def)
  have r: "U ?st ! 0 = U_xt ?st" by simp
  show ?thesis
    using march_runs_m_minus_1_steps[OF shaped_witness_state _ _ r, of 20] shaped_witness_state e
    by (simp add: range_py_def)
qed

subsection \<open>The degenerate case of zero diffusivity\<close>

lemma sum_delta_row:
  "i < N \<Longrightarrow> (\<Sum>j<N. (if j = i then a else 0) * f j) = a * f i" for a :: real and N :: nat
proof -
  assume i: "i < N"
  have "(\<Sum>j<N. (if j = i then a else 0) * f j) = (\<Sum>j\<in>{..<N}. if j = i then a * f j else 0)"
    by (intro sum.cong) auto
  also have "\<dots> = (if i \<in> {..<N} then a * f i else 0)" by (rule sum.delta) simp
  also have "\<dots> = a * f i" using i by simp
  finally show ?thesis .
qed

lemma next_state_identity:
  assumes "length u = N"
  shows "next_state (tridiag N 0) (bvec N 0) u = u"
proof (rule nth_equalityI)
  show "length (next_state (tridiag N 0) (bvec N 0) u) = length u"
    using assms by (simp add: length_next_state tridiag_def)
next
  fix i assume "i < length (next_state (tridiag N 0) (bvec N 0) u)"
  then have i: "i < N" by (simp add: length_next_state tridiag_def)
  have "next_state (tridiag N 0) (bvec N 0) u ! i
        = (\<Sum>j<N. tridiag N 0 ! i ! j * u ! j) + bvec N 0 ! i ! 0"
    using nth_next_state[where a="tridiag N 0" and i=i and u=u and b="bvec N 0"] i assms
    by (simp add: tridiag_def length_tri_row)
  also have "(\<Sum>j<N. tridiag N 0 ! i ! j * u ! j) = (\<Sum>j<N. (if j = i then 1 else 0) * u ! j)"
    using i by (intro sum.cong) (auto simp: nth_tridiag)
  also have "\<dots> = u ! i" using sum_delta_row[OF i, of 1 "\<lambda>j. u ! j"] by simp
  also have "bvec N 0 ! i ! 0 = 0" using i by (simp add: bvec_def)
  finally show "next_state (tridiag N 0) (bvec N 0) u ! i = u ! i" by simp
qed

lemma step_value:
  assumes "u \<noteq> []" "ncols a = length u" "length a = length b" "\<forall>r\<in>set b. length r = 1"
  shows "\<exists>w. bindE (matmul a (newaxis u)) (\<lambda>prod. add2 prod b) = Inr w \<and>
             flatten w = next_state a b u"
  using add2_columns[OF assms(3,4), of "\<lambda>row. dot row u"]
  by (simp add: matmul_newaxis[OF assms(1,2)] bindE_Inr next_state_def)

text \<open>
  C7. With Dirichlet boundaries and \<open>s = 0\<close> (and \<open>n \<ge> 2\<close>) the assembled \<open>A\<close> is the
  identity matrix, the vector \<open>B\<close> after the boundary cell is zero, and the step
  \<^verbatim>\<open>(np.matmul(A, u[:, np.newaxis]) + B).flatten()\<close> returns every state vector \<open>u\<close>
  of length \<open>n\<close> unchanged.
\<close>

theorem dirichlet_zero_s_identity:
  assumes "2 \<le> nn" "length u = nat nn"
  shows "\<exists>a b0 b w. assemble nn 0 = Inr (a, b0) \<and> apply_bcs nn 0 b0 = Inr b \<and>
           (\<forall>i<nat nn. \<forall>j<nat nn. a ! i ! j = (if i = j then 1 else 0)) \<and>
           (\<forall>i<nat nn. b ! i = [0]) \<and>
           bindE (matmul a (newaxis u)) (\<lambda>prod. add2 prod b) = Inr w \<and> flatten w = u"
proof -
  let ?N = "nat nn"
  have N: "2 \<le> ?N" "int ?N = nn" using assms(1) by simp_all
  have a: "assemble nn 0 = Inr (tridiag ?N 0, replicate ?N [0])"
    using assemble_ok[OF N(1), of 0] N(2) by simp
  have b: "apply_bcs nn 0 (replicate ?N [0]) = Inr (bvec ?N 0)"
    using apply_bcs_ok[of ?N 0] N by simp
  have ne: "u \<noteq> []" using assms(2) N(1) by auto
  have nc: "ncols (tridiag ?N 0) = length u" using N(1) assms(2) by (simp add: ncols_tridiag)
  have lab: "length (tridiag ?N 0) = length (bvec ?N 0)" by (simp add: tridiag_def bvec_def)
  have b1: "\<forall>r\<in>set (bvec ?N 0). length r = 1" by (auto simp: bvec_def)
  obtain w where w: "bindE (matmul (tridiag ?N 0) (newaxis u)) (\<lambda>prod. add2 prod (bvec ?N 0)) = Inr w"
    and fw: "flatten w = next_state (tridiag ?N 0) (bvec ?N 0) u"
    using step_value[OF ne nc lab b1] by blast
  have id: "\<forall>i<?N. \<forall>j<?N. tridiag ?N 0 ! i ! j = (if i = j then 1 else 0)"
    by (auto simp: nth_tridiag)
  have bz: "\<forall>i<?N. bvec ?N 0 ! i = [0]" by (simp add: bvec_def)
  have fu: "flatten w = u" using fw next_state_identity[OF assms(2)] by simp
  have "assemble nn 0 = Inr (tridiag ?N 0, replicate ?N [0]) \<and>
        apply_bcs nn 0 (replicate ?N [0]) = Inr (bvec ?N 0) \<and>
        (\<forall>i<?N. \<forall>j<?N. tridiag ?N 0 ! i ! j = (if i = j then 1 else 0)) \<and>
        (\<forall>i<?N. bvec ?N 0 ! i = [0]) \<and>
        bindE (matmul (tridiag ?N 0) (newaxis u)) (\<lambda>prod. add2 prod (bvec ?N 0)) = Inr w \<and>
        flatten w = u"
    using a b id bz w fu by blast
  then show ?thesis by blast
qed

theorem dirichlet_zero_s_identity_witness:
  "(2::int) \<le> 2 \<and> length [3, 5::real] = nat 2 \<and>
   assemble 2 0 = Inr ([[1, 0], [0, 1]], [[0], [0]]) \<and>
   apply_bcs 2 0 [[0], [0]] = Inr [[0], [0]] \<and>
   bindE (matmul [[1, 0], [0, 1]] (newaxis [3, 5])) (\<lambda>prod. add2 prod [[0], [0]]) = Inr [[3], [5]] \<and>
   flatten [[3], [5 :: real]] = [3, 5]"
proof -
  have h: "(2::int) \<le> 2" "length [3, 5::real] = nat 2" by simp_all
  have e1: "assemble 2 0 = Inr ([[1, 0], [0, 1]], [[0], [0]])"
    by (simp add: assemble_def assemble_A_def zeros2_def range_py_def assemble_row_def setitem2_def
        norm_index_def bindE_def eval_nat_numeral upt_conv_Cons)
  have e2: "apply_bcs 2 0 [[0], [0]] = Inr [[0], [0]]"
    by (simp add: apply_bcs_def setrow_scalar_def norm_index_def bindE_def)
  have e3: "bindE (matmul [[1, 0], [0, 1]] (newaxis [3, 5])) (\<lambda>prod. add2 prod [[0], [0]]) = Inr [[3], [5]]"
    by (simp add: matmul_def newaxis_def ncols_def column_def dot_def add2_def bindE_def)
  show ?thesis
    using dirichlet_zero_s_identity[OF h] e1 e2 e3 by (simp add: flatten_def)
qed

subsection \<open>The boundary vector\<close>

lemma march_step_B: "march_step dt i st = Inr st' \<Longrightarrow> B st' = B st"
  by (auto simp: march_step_def bindE_def split: sum.splits)

lemma for_loop_preserves:
  assumes "\<And>i st st'. body i st = Inr st' \<Longrightarrow> f st' = f st"
  shows "for_loop is body st = Inr st' \<Longrightarrow> f st' = f st"
proof (induction "is" arbitrary: st)
  case Nil
  then show ?case by simp
next
  case (Cons i "is")
  then show ?case using assms
    by (auto simp: bindE_def split: sum.splits) 
qed

lemma march_B: "march mm dt st = Inr st' \<Longrightarrow> B st' = B st"
  unfolding march_def by (rule for_loop_preserves[where f=B]) (rule march_step_B)

text \<open>
  C10. For \<open>n \<ge> 2\<close> and any \<open>s\<close>: after the boundary cell \<open>B\<close> has \<open>n\<close> rows of one entry,
  \<open>s\<close> in rows \<open>0\<close> and \<open>n - 1\<close> and zero in every other row. No iteration of the marching
  loop changes \<open>B\<close>, nor does the loop as a whole; and from any state of the right shapes
  that holds this \<open>B\<close> the loop returns with the same \<open>B\<close>.
\<close>

theorem boundary_vector_invariant:
  assumes "2 \<le> nn"
  shows "\<exists>a b0 b. assemble nn sv = Inr (a, b0) \<and> apply_bcs nn sv b0 = Inr b \<and>
           length b = nat nn \<and>
           (\<forall>i<nat nn. b ! i = [if i = 0 \<or> i = nat nn - 1 then sv else 0]) \<and>
           (\<forall>dt i st st'. march_step dt i st = Inr st' \<longrightarrow> B st' = B st) \<and>
           (\<forall>mm dt st st'. march mm dt st = Inr st' \<longrightarrow> B st' = B st) \<and>
           (\<forall>M dt st. shaped M (nat nn) st \<and> 1 \<le> M \<and> B st = b \<longrightarrow>
              (\<exists>st'. march (int M) dt st = Inr st' \<and> B st' = b))"
proof -
  let ?N = "nat nn"
  have N: "2 \<le> ?N" "int ?N = nn" using assms by simp_all
  have a: "assemble nn sv = Inr (tridiag ?N sv, replicate ?N [0])"
    using assemble_ok[OF N(1), of sv] N(2) by simp
  have b: "apply_bcs nn sv (replicate ?N [0]) = Inr (bvec ?N sv)"
    using apply_bcs_ok[of ?N sv] N by simp
  have lb: "length (bvec ?N sv) = ?N" by (simp add: bvec_def)
  have e: "\<forall>i<?N. bvec ?N sv ! i = [if i = 0 \<or> i = ?N - 1 then sv else 0]"
    using N(1) by (auto simp: bvec_def)
  have p1: "\<forall>dt i st st'. march_step dt i st = Inr st' \<longrightarrow> B st' = B st"
    using march_step_B by blast
  have p2: "\<forall>mm dt st st'. march mm dt st = Inr st' \<longrightarrow> B st' = B st"
    using march_B by blast
  have p3: "\<forall>M dt st. shaped M ?N st \<and> 1 \<le> M \<and> B st = bvec ?N sv \<longrightarrow>
              (\<exists>st'. march (int M) dt st = Inr st' \<and> B st' = bvec ?N sv)"
  proof (intro allI impI)
    fix M dt st
    assume h: "shaped M ?N st \<and> 1 \<le> M \<and> B st = bvec ?N sv"
    have "1 \<le> ?N" using N(1) by simp
    then have "march (int M) dt st = Inr (marched dt (M - 1) st)"
      using march_ok[where M=M and N="?N" and st=st and dt=dt] h by simp
    then show "\<exists>st'. march (int M) dt st = Inr st' \<and> B st' = bvec ?N sv"
      using h by (simp add: marched_B)
  qed
  have "assemble nn sv = Inr (tridiag ?N sv, replicate ?N [0]) \<and>
        apply_bcs nn sv (replicate ?N [0]) = Inr (bvec ?N sv) \<and>
        length (bvec ?N sv) = ?N \<and>
        (\<forall>i<?N. bvec ?N sv ! i = [if i = 0 \<or> i = ?N - 1 then sv else 0]) \<and>
        (\<forall>dt i st st'. march_step dt i st = Inr st' \<longrightarrow> B st' = B st) \<and>
        (\<forall>mm dt st st'. march mm dt st = Inr st' \<longrightarrow> B st' = B st) \<and>
        (\<forall>M dt st. shaped M ?N st \<and> 1 \<le> M \<and> B st = bvec ?N sv \<longrightarrow>
              (\<exists>st'. march (int M) dt st = Inr st' \<and> B st' = bvec ?N sv))"
    using a b lb e p1 p2 p3 by blast
  then show ?thesis by blast
qed

theorem boundary_vector_invariant_witness:
  "(2::int) \<le> 2 \<and>
   assemble 2 (1/4) = Inr ([[1/2, 1/4], [1/4, 1/2]], [[0], [0]]) \<and>
   apply_bcs 2 (1/4) [[0], [0]] = Inr [[1/4], [1/4]] \<and>
   shaped 2 2 \<lparr>A = [[1/2, 1/4], [1/4, 1/2]], B = [[1/4], [1/4]], U_xt = [1, 2],
               U = [[1, 2], [0, 0]], t = [0, 0]\<rparr> \<and>
   (\<exists>st'. march 2 20 \<lparr>A = [[1/2, 1/4], [1/4, 1/2]], B = [[1/4], [1/4]], U_xt = [1, 2],
               U = [[1, 2], [0, 0]], t = [0, 0]\<rparr> = Inr st' \<and> B st' = [[1/4], [1/4]])"
proof -
  let ?st = "\<lparr>A = [[1/2, 1/4], [1/4, 1/2]], B = [[1/4], [1/4]], U_xt = [1, 2::real],
               U = [[1, 2], [0, 0]], t = [0, 0]\<rparr>"
  have e1: "assemble 2 (1/4) = Inr ([[1/2, 1/4], [1/4, 1/2]], [[0], [0]])"
    by (simp add: assemble_def assemble_A_def zeros2_def range_py_def assemble_row_def setitem2_def
        norm_index_def bindE_def eval_nat_numeral upt_conv_Cons)
  have e2: "apply_bcs 2 (1/4) [[0], [0]] = Inr [[1/4], [1/4]]"
    by (simp add: apply_bcs_def setrow_scalar_def norm_index_def bindE_def)
  from boundary_vector_invariant[of 2 "1/4"] e1 e2
  have "\<forall>M dt st. shaped M (nat 2) st \<and> 1 \<le> M \<and> B st = [[1/4], [1/4]] \<longrightarrow>
              (\<exists>st'. march (int M) dt st = Inr st' \<and> B st' = [[1/4], [1/4]])"
    by auto
  then have "\<exists>st'. march (int 2) 20 ?st = Inr st' \<and> B st' = [[1/4], [1/4]]"
    using shaped_witness_state by (elim allE[of _ 2] allE[of _ 20] allE[of _ ?st]) simp
  then show ?thesis using e1 e2 shaped_witness_state by simp
qed

subsection \<open>Stability: the maximum principle\<close>

lemma tri_row_sum:
  assumes "i < N"
  shows "(\<Sum>j<N. tri_row N sv i ! j * f j)
         = (1 - 2 * sv) * f i + (if Suc i < N then sv * f (Suc i) else 0)
           + (if 0 < i then sv * f (i - 1) else 0)"
proof -
  have e: "tri_row N sv i ! j * f j
           = (if j = i then (1 - 2 * sv) * f j else 0) + (if j = Suc i then sv * f j else 0)
             + (if j = i - 1 then (if 0 < i then sv * f j else 0) else 0)" if "j < N" for j
    using that by (auto simp: tri_row_def)
  have "(\<Sum>j<N. tri_row N sv i ! j * f j)
        = (\<Sum>j\<in>{..<N}. (if j = i then (1 - 2 * sv) * f j else 0) + (if j = Suc i then sv * f j else 0)
             + (if j = i - 1 then (if 0 < i then sv * f j else 0) else 0))"
    by (rule sum.cong) (simp_all add: e)
  also have "\<dots> = (\<Sum>j\<in>{..<N}. if j = i then (1 - 2 * sv) * f j else 0)
                  + (\<Sum>j\<in>{..<N}. if j = Suc i then sv * f j else 0)
                  + (\<Sum>j\<in>{..<N}. if j = i - 1 then (if 0 < i then sv * f j else 0) else 0)"
    by (simp add: sum.distrib)
  also have "(\<Sum>j\<in>{..<N}. if j = i then (1 - 2 * sv) * f j else 0)
             = (if i \<in> {..<N} then (1 - 2 * sv) * f i else 0)"
    by (rule sum.delta) simp
  also have "(\<Sum>j\<in>{..<N}. if j = Suc i then sv * f j else 0)
             = (if Suc i \<in> {..<N} then sv * f (Suc i) else 0)"
    by (rule sum.delta) simp
  also have "(\<Sum>j\<in>{..<N}. if j = i - 1 then (if 0 < i then sv * f j else 0) else 0)
             = (if i - 1 \<in> {..<N} then (if 0 < i then sv * f (i - 1) else 0) else 0)"
    by (rule sum.delta) simp
  finally have "(\<Sum>j<N. tri_row N sv i ! j * f j)
      = (if i \<in> {..<N} then (1 - 2 * sv) * f i else 0)
        + (if Suc i \<in> {..<N} then sv * f (Suc i) else 0)
        + (if i - 1 \<in> {..<N} then (if 0 < i then sv * f (i - 1) else 0) else 0)" .
  moreover have "i - 1 < N" using assms by simp
  ultimately show ?thesis using assms by simp
qed

lemma next_state_stencil:
  assumes "i < N" "length u = N"
  shows "next_state (tridiag N sv) (bvec N sv) u ! i
         = (1 - 2 * sv) * u ! i + (if Suc i < N then sv * u ! Suc i else 0)
           + (if 0 < i then sv * u ! (i - 1) else 0)
           + (if i = 0 \<or> Suc i = N then sv else 0)"
proof -
  have "next_state (tridiag N sv) (bvec N sv) u ! i
        = (\<Sum>j<N. tridiag N sv ! i ! j * u ! j) + bvec N sv ! i ! 0"
    using nth_next_state[where a="tridiag N sv" and i=i and u=u and b="bvec N sv"] assms
    by (simp add: tridiag_def length_tri_row)
  also have "(\<Sum>j<N. tridiag N sv ! i ! j * u ! j) = (\<Sum>j<N. tri_row N sv i ! j * u ! j)"
    using assms(1) by (simp add: tridiag_def)
  finally show ?thesis using assms(1) by (simp add: tri_row_sum bvec_def)
qed

lemma next_state_bound:
  assumes s: "0 \<le> sv" "sv \<le> 1 / 2" and N: "2 \<le> N" and lu: "length u = N"
    and c: "1 \<le> c" and u: "\<forall>j<N. \<bar>u ! j\<bar> \<le> c" and i: "i < N"
  shows "\<bar>next_state (tridiag N sv) (bvec N sv) u ! i\<bar> \<le> c"
proof -
  let ?d = "1 - 2 * sv"
  have d: "0 \<le> ?d" using s by simp
  have ui: "\<bar>?d * u ! i\<bar> \<le> ?d * c"
    using u i d by (simp add: abs_mult mult_left_mono)
  have un: "\<bar>sv * u ! j\<bar> \<le> sv * c" if "j < N" for j
    using u that s by (simp add: abs_mult mult_left_mono)
  have sc: "sv \<le> sv * c" using s c by (simp add: mult_le_cancel_left1)
  have dc: "?d * c + sv * c + sv * c = c" by (simp add: algebra_simps)
  consider "i = 0" | "0 < i" "Suc i = N" | "0 < i" "Suc i < N" using i by linarith
  then show ?thesis
  proof cases
    case 1
    then have "next_state (tridiag N sv) (bvec N sv) u ! i = ?d * u ! i + sv * u ! Suc i + sv"
      using next_state_stencil[OF i lu, of sv] N by simp
    moreover have "\<bar>?d * u ! i + sv * u ! Suc i + sv\<bar> \<le> ?d * c + sv * c + sv * c"
      using ui un[of "Suc i"] sc 1 N s by linarith
    ultimately show ?thesis using dc by simp
  next
    case 2
    then have "next_state (tridiag N sv) (bvec N sv) u ! i = ?d * u ! i + sv * u ! (i - 1) + sv"
      using next_state_stencil[OF i lu, of sv] by auto
    moreover have "\<bar>?d * u ! i + sv * u ! (i - 1) + sv\<bar> \<le> ?d * c + sv * c + sv * c"
      using ui un[of "i - 1"] sc 2 s by linarith
    ultimately show ?thesis using dc by simp
  next
    case 3
    then have "next_state (tridiag N sv) (bvec N sv) u ! i
               = ?d * u ! i + sv * u ! Suc i + sv * u ! (i - 1)"
      using next_state_stencil[OF i lu, of sv] by auto
    moreover have "\<bar>?d * u ! i + sv * u ! Suc i + sv * u ! (i - 1)\<bar> \<le> ?d * c + sv * c + sv * c"
      using ui un[of "Suc i"] un[of "i - 1"] 3 by linarith
    ultimately show ?thesis using dc by simp
  qed
qed

lemma iterate_bound:
  assumes "0 \<le> sv" "sv \<le> 1 / 2" "2 \<le> N" "length u = N" "1 \<le> c" "\<forall>j<N. \<bar>u ! j\<bar> \<le> c"
  shows "\<forall>j<N. \<bar>(next_state (tridiag N sv) (bvec N sv) ^^ k) u ! j\<bar> \<le> c"
proof (induction k)
  case 0
  show ?case using assms(6) by simp
next
  case (Suc k)
  have l: "length ((next_state (tridiag N sv) (bvec N sv) ^^ k) u) = N"
    using length_iterate[where a="tridiag N sv" and u=u and b="bvec N sv" and k=k] assms(4)
    by (simp add: tridiag_def)
  show ?case
    using next_state_bound[OF assms(1,2,3) l assms(5) Suc.IH] by simp
qed

lemma Max_abs_le:
  fixes u :: "real list"
  assumes "u \<noteq> []" "\<forall>j<length u. \<bar>u ! j\<bar> \<le> c"
  shows "Max (abs ` set u) \<le> c"
proof -
  have "abs ` set u \<noteq> {}" using assms(1) by simp
  moreover have "\<forall>y\<in>abs ` set u. y \<le> c" using assms(2) by (auto simp: in_set_conv_nth)
  ultimately show ?thesis by (simp add: Max_le_iff)
qed

lemma Max_abs_ge: "j < length u \<Longrightarrow> \<bar>u ! j\<bar> \<le> Max (abs ` set u)" for u :: "real list"
  by (rule Max_ge) auto

lemma max_norm_nonincreasing:
  assumes "2 \<le> n c" "1 \<le> m c" "parameters c = Inr p"
    and "0 \<le> s p" "s p \<le> 1 / 2" "1 \<le> Max (abs ` set (u_init c p))" "k < nat (m c)"
  shows "\<exists>st. run c = Inr st \<and> U st ! 0 = u_init c p \<and>
           Max (abs ` set (U st ! k)) \<le> Max (abs ` set (U st ! 0))"
proof -
  let ?N = "nat (n c)"
  let ?st = "marched (dT p) (nat (m c) - 1) (state0 c p)"
  let ?F = "next_state (tridiag ?N (s p)) (bvec ?N (s p))"
  let ?c = "Max (abs ` set (u_init c p))"
  have N: "2 \<le> ?N" using assms(1) by simp
  have r: "run c = Inr ?st" by (rule run_ok[OF assms(1,2,3)])
  have k0: "0 < nat (m c)" using assms(2) by simp
  have r0: "U ?st ! 0 = u_init c p" using final_U_row[OF assms(2) k0, where dt="dT p" and p=p] by simp
  have rk: "U ?st ! k = (?F ^^ k) (u_init c p)" by (rule final_U_row[OF assms(2,7)])
  have b0: "\<forall>j<?N. \<bar>u_init c p ! j\<bar> \<le> ?c"
    using Max_abs_ge[of _ "u_init c p"] by (simp add: length_u_init)
  have bk: "\<forall>j<?N. \<bar>(?F ^^ k) (u_init c p) ! j\<bar> \<le> ?c"
    by (rule iterate_bound[OF assms(4,5) N length_u_init assms(6) b0])
  have lk: "length ((?F ^^ k) (u_init c p)) = ?N"
    using length_iterate[where a="tridiag ?N (s p)" and u="u_init c p" and b="bvec ?N (s p)" and k=k]
    by (simp add: tridiag_def length_u_init)
  have ne: "(?F ^^ k) (u_init c p) \<noteq> []" using lk N by auto
  have "Max (abs ` set ((?F ^^ k) (u_init c p))) \<le> ?c"
    by (rule Max_abs_le[OF ne]) (use lk bk in simp)
  then show ?thesis using r r0 rk by simp
qed

lemma u_init_default_mid:
  "u_init default_config \<lparr>L = 1, dX = 1 / 40, dT = 20, s = 8 / 25\<rparr> ! 19 = 100"
proof -
  have "(19::nat) < 39" by simp
  then have "u_init default_config \<lparr>L = 1, dX = 1 / 40, dT = 20, s = 8 / 25\<rparr> ! 19
      = 100 * sin (pi * (1 / 40 + 19 * (1 / 40)) / 1)"
    by (simp add: u_init_def initial_condition_def default_config_def)
  also have "pi * (1 / 40 + 19 * (1 / 40)) / 1 = pi / 2" by simp
  finally show ?thesis by simp
qed

text \<open>
  C6. For the notebook's own configuration (\<open>n = 39\<close>, \<open>L = 1\<close>, \<open>kappa = 10\<^sup>-\<^sup>5\<close>,
  \<open>m = 600\<close>, \<open>T = 12000\<close>, half-sine initial condition) the run returns, and the largest
  absolute value in the last row of \<open>U\<close> is at most the largest absolute value in row
  \<open>0\<close>. (Exact arithmetic; \<open>s = 0.32 \<le> 1/2\<close> makes every new entry a convex combination
  of old entries and the boundary value \<open>1\<close>, and row \<open>0\<close> contains \<open>100\<close>.)
\<close>

theorem default_run_max_decay:
  "\<exists>st. run default_config = Inr st \<and>
     Max (abs ` set (U st ! nat (m default_config - 1))) \<le> Max (abs ` set (U st ! 0))"
proof -
  let ?p = "\<lparr>L = 1, dX = 1 / 40, dT = 20, s = 8 / 25\<rparr>"
  have h: "2 \<le> n default_config" "1 \<le> m default_config"
    by (simp_all add: default_config_def)
  have l: "19 < length (u_init default_config ?p)"
    by (simp add: length_u_init default_config_def)
  have "\<bar>u_init default_config ?p ! 19\<bar> \<le> Max (abs ` set (u_init default_config ?p))"
    by (rule Max_abs_ge[OF l])
  then have c: "1 \<le> Max (abs ` set (u_init default_config ?p))"
    by (simp add: u_init_default_mid)
  have k: "nat (m default_config - 1) < nat (m default_config)"
    by (simp add: default_config_def)
  show ?thesis
    using max_norm_nonincreasing[OF h parameters_default _ _ c k] by auto
qed

subsection \<open>Malformed configurations\<close>

lemma run_zero_n:
  assumes "parameters c = Inr p" "n c = 0"
  shows "run c = Inl IndexError"
  using assms
  by (simp add: run_def bindE_def assemble_def assemble_A_def zeros2_def range_py_def
      apply_bcs_def setrow_scalar_def norm_index_def)

lemma parameters_zero_division:
  "n c = - 1 \<or> m c = 0 \<or> xL c = x0 c \<Longrightarrow> parameters c = Inl ZeroDivisionError"
proof -
  assume h: "n c = - 1 \<or> m c = 0 \<or> xL c = x0 c"
  have "(of_int (n c + 1) :: real) = 0 \<longleftrightarrow> n c + 1 = 0" by (rule of_int_eq_0_iff)
  then have n1: "(of_int (n c + 1) :: real) = 0 \<longleftrightarrow> n c = - 1" by linarith
  show ?thesis
    using n1 h by (auto simp: parameters_def truediv_def bindE_def Let_def simp del: of_int_add)
qed

lemma assemble_negative: "nn < 0 \<Longrightarrow> assemble nn sv = Inl ValueError"
  by (simp add: assemble_def assemble_A_negative bindE_Inl)

lemma assemble_zero: "assemble 0 sv = Inr ([], [])"
  by (simp add: assemble_def assemble_A_zero zeros2_def bindE_Inr)

lemma initialize_negative_m: "m c < 0 \<Longrightarrow> initialize c a b u0 = Inl ValueError"
  by (simp add: initialize_def zeros2_def bindE_Inl)

text \<open>
  C8, as the code has it. The notebook validates nothing. With \<open>n = -1\<close> the parameter
  cell raises ZeroDivisionError, and with \<open>m = 0\<close> or \<open>xL = x0\<close> it raises as well, all
  before the assembly. Nothing else is checked before or during the assembly: for any
  value of \<open>s\<close>, zero and negative included, and leaving \<open>n = 1\<close> aside, the assembly cell
  fails only for \<open>n < 0\<close> (NumPy's ValueError on allocating \<open>A\<close>) and returns for every
  other \<open>n\<close>; the boundary cell then fails for \<open>n = 0\<close> (IndexError) and returns for
  \<open>n \<ge> 2\<close>; and a negative \<open>m\<close> is refused only by NumPy when \<open>U\<close> is allocated in the
  initialisation cell.
\<close>

theorem no_validation_before_assembly:
  assumes "nn \<noteq> 1"
  shows "(n c = - 1 \<longrightarrow> parameters c = Inl ZeroDivisionError) \<and>
         (m c = 0 \<or> xL c = x0 c \<longrightarrow> (\<exists>e. parameters c = Inl e)) \<and>
         assemble nn sv = (if nn < 0 then Inl ValueError
                           else Inr (tridiag (nat nn) sv, replicate (nat nn) [0])) \<and>
         (0 \<le> nn \<longrightarrow> apply_bcs nn sv (replicate (nat nn) [0])
                       = (if nn = 0 then Inl IndexError else Inr (bvec (nat nn) sv))) \<and>
         (m c < 0 \<longrightarrow> initialize c a b u0 = Inl ValueError)"
proof -
  have p1: "n c = - 1 \<longrightarrow> parameters c = Inl ZeroDivisionError"
    using parameters_zero_division[of c] by simp
  have p2: "m c = 0 \<or> xL c = x0 c \<longrightarrow> (\<exists>e. parameters c = Inl e)"
    using parameters_zero_division[of c] by auto
  have as: "assemble nn sv = (if nn < 0 then Inl ValueError
                           else Inr (tridiag (nat nn) sv, replicate (nat nn) [0]))"
  proof -
    consider "nn < 0" | "nn = 0" | "2 \<le> nn" using assms by linarith
    then show ?thesis
    proof cases
      case 1
      then show ?thesis by (simp add: assemble_negative)
    next
      case 2
      then show ?thesis by (simp add: assemble_zero tridiag_def)
    next
      case 3
      then have N: "2 \<le> nat nn" "int (nat nn) = nn" by simp_all
      show ?thesis using assemble_ok[OF N(1), of sv] N(2) 3 by simp
    qed
  qed
  have bc: "0 \<le> nn \<longrightarrow> apply_bcs nn sv (replicate (nat nn) [0])
                       = (if nn = 0 then Inl IndexError else Inr (bvec (nat nn) sv))"
  proof
    assume "0 \<le> nn"
    then consider "nn = 0" | "2 \<le> nn" using assms by linarith
    then show "apply_bcs nn sv (replicate (nat nn) [0])
               = (if nn = 0 then Inl IndexError else Inr (bvec (nat nn) sv))"
    proof cases
      case 1
      then show ?thesis by (simp add: apply_bcs_zero)
    next
      case 2
      then have N: "1 \<le> nat nn" "int (nat nn) = nn" by simp_all
      show ?thesis using apply_bcs_ok[OF N(1), of sv] N(2) 2 by simp
    qed
  qed
  have ini: "m c < 0 \<longrightarrow> initialize c a b u0 = Inl ValueError"
    using initialize_negative_m by blast
  show ?thesis using p1 p2 as bc ini by blast
qed

theorem no_validation_before_assembly_witness:
  "parameters \<lparr>x0 = 0, xL = 1, n = - 1, m = 600, T = 12000, kappa = 1 / 10 ^ 5\<rparr>
     = Inl ZeroDivisionError \<and>
   (\<exists>e. parameters \<lparr>x0 = 0, xL = 1, n = 39, m = 0, T = 12000, kappa = 1 / 10 ^ 5\<rparr> = Inl e) \<and>
   (\<exists>e. parameters \<lparr>x0 = 1, xL = 1, n = 39, m = 600, T = 12000, kappa = 1 / 10 ^ 5\<rparr> = Inl e) \<and>
   assemble (- 2) (- (8 / 25)) = Inl ValueError \<and>
   assemble 0 (- (8 / 25)) = Inr ([], []) \<and>
   apply_bcs 0 (- (8 / 25)) [] = Inl IndexError \<and>
   assemble 2 (- (8 / 25)) = Inr ([[41 / 25, - (8 / 25)], [- (8 / 25), 41 / 25]], [[0], [0]]) \<and>
   apply_bcs 2 (- (8 / 25)) [[0], [0]] = Inr [[- (8 / 25)], [- (8 / 25)]] \<and>
   initialize \<lparr>x0 = 0, xL = 1, n = 39, m = - 600, T = 12000, kappa = 1 / 10 ^ 5\<rparr> [] [] []
     = Inl ValueError"
proof -
  let ?c1 = "\<lparr>x0 = 0, xL = 1, n = - 1, m = 600, T = 12000, kappa = 1 / 10 ^ 5\<rparr>"
  let ?c2 = "\<lparr>x0 = 0, xL = 1, n = 39, m = 0, T = 12000, kappa = 1 / 10 ^ 5\<rparr>"
  let ?c3 = "\<lparr>x0 = 1, xL = 1, n = 39, m = 600, T = 12000, kappa = 1 / 10 ^ 5\<rparr>"
  let ?c4 = "\<lparr>x0 = 0, xL = 1, n = 39, m = - 600, T = 12000, kappa = 1 / 10 ^ 5\<rparr>"
  have t2: "tridiag 2 (- (8 / 25)) = [[41 / 25, - (8 / 25)], [- (8 / 25), 41 / 25]]"
    by (simp add: tridiag_def tri_row_def eval_nat_numeral upt_conv_Cons)
  have b2: "bvec 2 (- (8 / 25)) = [[- (8 / 25)], [- (8 / 25)]]"
    by (simp add: bvec_def eval_nat_numeral upt_conv_Cons)
  have r2: "replicate 2 [0::real] = [[0], [0]]" by (simp add: eval_nat_numeral)
  have a: "parameters ?c1 = Inl ZeroDivisionError"
    using no_validation_before_assembly[of 0 ?c1] by simp
  have b: "\<exists>e. parameters ?c2 = Inl e"
    using no_validation_before_assembly[of 0 ?c2] by simp
  have c: "\<exists>e. parameters ?c3 = Inl e"
    using no_validation_before_assembly[of 0 ?c3] by simp
  have d: "assemble (- 2) (- (8 / 25)) = Inl ValueError"
    using no_validation_before_assembly[of "- 2" ?c1 "- (8 / 25)"] by simp
  have e: "assemble 0 (- (8 / 25)) = Inr ([], []) \<and> apply_bcs 0 (- (8 / 25)) [] = Inl IndexError"
    using no_validation_before_assembly[of 0 ?c1 "- (8 / 25)"] by (simp add: tridiag_def)
  have f: "assemble 2 (- (8 / 25)) = Inr ([[41 / 25, - (8 / 25)], [- (8 / 25), 41 / 25]], [[0], [0]]) \<and>
           apply_bcs 2 (- (8 / 25)) [[0], [0]] = Inr [[- (8 / 25)], [- (8 / 25)]]"
    using no_validation_before_assembly[of 2 ?c1 "- (8 / 25)"] by (simp add: t2 b2) (simp add: r2)
  have g: "initialize ?c4 [] [] [] = Inl ValueError"
    using no_validation_before_assembly[of 0 ?c4] by simp
  show ?thesis using a b c d e f g by blast
qed

text \<open>
  C8, as stated, fails: with \<open>n = 0\<close> the parameter cell and the assembly cell both
  complete, and the run stops only in the boundary cell, with an IndexError.
\<close>

theorem no_validation_counterexample:
  "n \<lparr>x0 = 0, xL = 1, n = 0, m = 600, T = 12000, kappa = 1 / 10 ^ 5\<rparr> < 1 \<and>
   parameters \<lparr>x0 = 0, xL = 1, n = 0, m = 600, T = 12000, kappa = 1 / 10 ^ 5\<rparr>
     = Inr \<lparr>L = 1, dX = 1, dT = 20, s = 1 / 5000\<rparr> \<and>
   assemble 0 (1 / 5000) = Inr ([], []) \<and>
   apply_bcs 0 (1 / 5000) [] = Inl IndexError \<and>
   run \<lparr>x0 = 0, xL = 1, n = 0, m = 600, T = 12000, kappa = 1 / 10 ^ 5\<rparr> = Inl IndexError"
proof -
  let ?c = "\<lparr>x0 = 0, xL = 1, n = 0, m = 600, T = 12000, kappa = 1 / 10 ^ 5\<rparr>"
  have p: "parameters ?c = Inr \<lparr>L = 1, dX = 1, dT = 20, s = 1 / 5000\<rparr>"
    by (simp add: parameters_def truediv_def bindE_def Let_def)
  have a: "assemble 0 (1 / 5000) = Inr ([], [])"
    by (simp add: assemble_def assemble_A_def zeros2_def range_py_def bindE_def)
  show ?thesis using p a run_zero_n[OF p] by (simp add: apply_bcs_zero)
qed

subsection \<open>The rounding function\<close>

text \<open>
  \<open>fl q\<close> is a multiple of the unit in the last place of the binade of \<open>q\<close>, with a
  significand of 53 binary digits; no other multiple of that unit is nearer to \<open>q\<close>, and
  the error is at most half a unit.
\<close>

lemma bits_nonneg: "0 \<le> bits j"
  by (induction j rule: bits.induct) (subst bits.simps, simp)

lemma bits_step: "0 < k \<Longrightarrow> bits k = 1 + bits (k div 2)"
  by (subst bits.simps) simp

lemma bits_pos: "0 < k \<Longrightarrow> 1 \<le> bits k"
  using bits_nonneg[of "k div 2"] by (simp add: bits_step)

lemma bits_one: "bits 1 = 1"
  by (simp add: bits_step) (subst bits.simps, simp)

lemma bits_bounds: "0 < k \<Longrightarrow> 2 ^ nat (bits k - 1) \<le> k \<and> k < 2 ^ nat (bits k)"
proof (induction k rule: bits.induct)
  case (1 k)
  show ?case
  proof (cases "k = 1")
    case True
    then show ?thesis by (simp add: bits_one)
  next
    case False
    then have h: "0 < k div 2" using "1.prems" by simp
    have b: "bits k = 1 + bits (k div 2)" using "1.prems" by (rule bits_step)
    have ih: "2 ^ nat (bits (k div 2) - 1) \<le> k div 2 \<and> k div 2 < 2 ^ nat (bits (k div 2))"
      using "1.IH" "1.prems" h by simp
    have p: "1 \<le> bits (k div 2)" by (rule bits_pos[OF h])
    have e1: "nat (bits k - 1) = Suc (nat (bits (k div 2) - 1))" using b p by simp
    have e2: "nat (bits k) = Suc (nat (bits (k div 2)))" using b p by simp
    have d: "2 * (k div 2) \<le> k" "k < 2 * (k div 2) + 2" by presburger+
    have "2 * 2 ^ nat (bits (k div 2) - 1) \<le> k" using ih d by linarith
    moreover have "k < 2 * 2 ^ nat (bits (k div 2))" using ih d by linarith
    ultimately show ?thesis unfolding e1 e2 by simp
  qed
qed

lemma pow2_pos: "0 < pow2 e"
  by (simp add: pow2_def)

lemma pow2_add: "pow2 (a + b) = pow2 a * pow2 b"
proof -
  have "pow2 e = 2 powi e" for e
    by (simp add: pow2_def power_int_def field_simps)
  then show ?thesis by (simp add: power_int_add)
qed

lemma pow2_nat: "0 \<le> e \<Longrightarrow> pow2 e = 2 ^ nat e"
  by (simp add: pow2_def)

lemma pow2_neg: "pow2 (- e) = 1 / pow2 e"
  using pow2_add[of e "- e"] pow2_pos[of e] by (simp add: pow2_def field_simps)

lemma expo_bounds:
  assumes "0 < q"
  shows "pow2 (expo q) \<le> q \<and> q < pow2 (expo q + 1)"
proof (cases "1 \<le> q")
  case True
  let ?k = "\<lfloor>q\<rfloor>"
  have k: "0 < ?k" using True by simp
  have bb: "2 ^ nat (bits ?k - 1) \<le> ?k" "?k < 2 ^ nat (bits ?k)"
    using bits_bounds[OF k] by simp_all
  have d0: "0 \<le> bits ?k - 1" using bits_pos[OF k] by simp
  have lo: "pow2 (bits ?k - 1) \<le> q"
  proof -
    have "(of_int (2 ^ nat (bits ?k - 1)) :: rat) \<le> of_int ?k"
      using bb(1) by (simp only: of_int_le_iff)
    also have "\<dots> \<le> q" by simp
    finally show ?thesis using d0 by (simp add: pow2_nat)
  qed
  have hi: "q < pow2 (bits ?k - 1 + 1)"
  proof -
    have "?k + 1 \<le> 2 ^ nat (bits ?k)" using bb(2) by simp
    then have "(of_int (?k + 1) :: rat) \<le> of_int (2 ^ nat (bits ?k))"
      by (simp only: of_int_le_iff)
    moreover have "q < of_int (?k + 1)" by linarith
    ultimately have "q < of_int (2 ^ nat (bits ?k))" by linarith
    then show ?thesis using bits_nonneg[of ?k] by (simp add: pow2_nat)
  qed
  have "expo q = bits ?k - 1" using True lo by (simp add: expo_def)
  then show ?thesis using lo hi by simp
next
  case False
  let ?r = "1 / q"
  let ?k = "\<lfloor>?r\<rfloor>"
  let ?b = "bits ?k"
  have r1: "1 < ?r" using False assms by simp
  have k: "0 < ?k" using r1 by simp
  have bb: "2 ^ nat (?b - 1) \<le> ?k" "?k < 2 ^ nat ?b"
    using bits_bounds[OF k] by simp_all
  have b1: "1 \<le> ?b" by (rule bits_pos[OF k])
  have rlo: "pow2 (?b - 1) \<le> ?r"
  proof -
    have "(of_int (2 ^ nat (?b - 1)) :: rat) \<le> of_int ?k"
      using bb(1) by (simp only: of_int_le_iff)
    also have "\<dots> \<le> ?r" by simp
    finally show ?thesis using b1 by (simp add: pow2_nat)
  qed
  have rhi: "?r < pow2 ?b"
  proof -
    have "?k + 1 \<le> 2 ^ nat ?b" using bb(2) by simp
    then have "(of_int (?k + 1) :: rat) \<le> of_int (2 ^ nat ?b)"
      by (simp only: of_int_le_iff)
    moreover have "?r < of_int (?k + 1)" by linarith
    ultimately have "?r < of_int (2 ^ nat ?b)" by linarith
    then show ?thesis using b1 by (simp add: pow2_nat)
  qed
  have qhi: "q \<le> pow2 (1 - ?b)"
  proof -
    have "q * pow2 (?b - 1) \<le> q * ?r" by (rule mult_left_mono) (use rlo assms in auto)
    moreover have "q * ?r = 1" using assms by simp
    ultimately have "q * pow2 (?b - 1) \<le> 1" by simp
    then have "q \<le> 1 / pow2 (?b - 1)" using pow2_pos[of "?b - 1"] by (simp add: field_simps)
    then show ?thesis using pow2_neg[of "?b - 1"] by simp
  qed
  have qlo: "pow2 (- ?b) < q"
  proof -
    have "q * ?r < q * pow2 ?b" by (rule mult_strict_left_mono) (use rhi assms in auto)
    moreover have "q * ?r = 1" using assms by simp
    ultimately have "1 < q * pow2 ?b" by simp
    then have "1 / pow2 ?b < q" using pow2_pos[of ?b] by (simp add: field_simps)
    then show ?thesis using pow2_neg[of ?b] by simp
  qed
  show ?thesis
  proof (cases "pow2 (1 - ?b) \<le> q")
    case True
    have e: "expo q = 1 - ?b" using False True by (simp add: expo_def)
    have "pow2 (1 - ?b) < pow2 (1 - ?b + 1)"
      using pow2_add[of "1 - ?b" 1] pow2_pos[of "1 - ?b"] by (simp add: pow2_def)
    then show ?thesis using e True qhi by simp
  next
    case F2: False
    have e: "expo q = 1 - ?b - 1" using False F2 by (simp add: expo_def)
    have "1 - ?b - 1 = - ?b" by simp
    then show ?thesis using e qlo F2 by simp
  qed
qed

lemma round_even_nearest: "\<bar>of_int (round_even x) - x\<bar> \<le> \<bar>of_int j - x\<bar>"
proof -
  let ?f = "\<lfloor>x\<rfloor>"
  have f: "of_int ?f \<le> x" "x < of_int ?f + 1" by linarith+
  have j: "j \<le> ?f \<or> ?f + 1 \<le> j" by linarith
  have jl: "j \<le> ?f \<Longrightarrow> (of_int j :: rat) \<le> of_int ?f" by (simp only: of_int_le_iff)
  have jh: "?f + 1 \<le> j \<Longrightarrow> (of_int ?f :: rat) + 1 \<le> of_int j"
  proof -
    assume "?f + 1 \<le> j"
    then have "(of_int (?f + 1) :: rat) \<le> of_int j" by (simp only: of_int_le_iff)
    then show ?thesis by simp
  qed
  have r: "round_even x = ?f \<or> round_even x = ?f + 1"
    by (simp add: round_even_def Let_def)
  have lo: "round_even x = ?f \<Longrightarrow> x - of_int ?f \<le> 1 / 2"
    by (auto simp: round_even_def Let_def split: if_splits)
  have hi: "round_even x = ?f + 1 \<Longrightarrow> 1 / 2 \<le> x - of_int ?f"
    by (auto simp: round_even_def Let_def split: if_splits)
  from r show ?thesis
  proof
    assume a: "round_even x = ?f"
    from j show ?thesis
    proof
      assume "j \<le> ?f"
      then show ?thesis using lo[OF a] f jl unfolding a by linarith
    next
      assume "?f + 1 \<le> j"
      then show ?thesis using lo[OF a] f jh unfolding a by linarith
    qed
  next
    assume a: "round_even x = ?f + 1"
    have c: "(of_int (?f + 1) :: rat) = of_int ?f + 1" by simp
    from j show ?thesis
    proof
      assume "j \<le> ?f"
      then show ?thesis using hi[OF a] f jl unfolding a c by linarith
    next
      assume "?f + 1 \<le> j"
      then show ?thesis using hi[OF a] f jh unfolding a c by linarith
    qed
  qed
qed

lemma round_even_half: "\<bar>of_int (round_even x) - x\<bar> \<le> 1 / 2"
proof -
  have f: "of_int \<lfloor>x\<rfloor> \<le> x" "x < of_int \<lfloor>x\<rfloor> + 1" by linarith+
  have a: "\<bar>of_int (round_even x) - x\<bar> \<le> \<bar>of_int \<lfloor>x\<rfloor> - x\<bar>" by (rule round_even_nearest)
  have b: "\<bar>of_int (round_even x) - x\<bar> \<le> \<bar>of_int (\<lfloor>x\<rfloor> + 1) - x\<bar>" by (rule round_even_nearest)
  have c: "(of_int (\<lfloor>x\<rfloor> + 1) :: rat) = of_int \<lfloor>x\<rfloor> + 1" by simp
  show ?thesis using a b f unfolding c by linarith
qed

lemma round_even_ge: "of_int lo \<le> x \<Longrightarrow> lo \<le> round_even x"
proof -
  assume "of_int lo \<le> x"
  then have "lo \<le> \<lfloor>x\<rfloor>" by (simp add: le_floor_iff)
  moreover have "\<lfloor>x\<rfloor> \<le> round_even x" by (simp add: round_even_def Let_def)
  ultimately show ?thesis by linarith
qed

lemma round_even_le: "x \<le> of_int hi \<Longrightarrow> round_even x \<le> hi"
proof -
  assume h: "x \<le> of_int hi"
  have f: "of_int \<lfloor>x\<rfloor> \<le> x" by linarith
  show ?thesis
  proof (cases "round_even x = \<lfloor>x\<rfloor>")
    case True
    have "\<lfloor>x\<rfloor> \<le> hi" using floor_mono[OF h] by simp
    then show ?thesis using True by simp
  next
    case False
    then have r: "round_even x = \<lfloor>x\<rfloor> + 1" and p: "1 / 2 \<le> x - of_int \<lfloor>x\<rfloor>"
      by (auto simp: round_even_def Let_def split: if_splits)
    have "of_int \<lfloor>x\<rfloor> < (of_int hi :: rat)" using p h by linarith
    then have "\<lfloor>x\<rfloor> < hi" by (simp only: of_int_less_iff)
    then show ?thesis using r by simp
  qed
qed

lemma fl_unfold:
  "q \<noteq> 0 \<Longrightarrow> fl q = of_int (round_even (q / pow2 (expo \<bar>q\<bar> - 52))) * pow2 (expo \<bar>q\<bar> - 52)"
  by (simp add: fl_def Let_def)

lemma fl_nearest:
  assumes "q \<noteq> 0"
  shows "\<bar>fl q - q\<bar> \<le> \<bar>of_int j * pow2 (expo \<bar>q\<bar> - 52) - q\<bar>"
proof -
  let ?u = "pow2 (expo \<bar>q\<bar> - 52)"
  have u: "0 < ?u" by (rule pow2_pos)
  have e: "of_int i * ?u - q = ?u * (of_int i - q / ?u)" for i
    using u by (simp add: field_simps)
  have "\<bar>fl q - q\<bar> = ?u * \<bar>of_int (round_even (q / ?u)) - q / ?u\<bar>"
    using u unfolding fl_unfold[OF assms] e by (simp add: abs_mult)
  also have "\<dots> \<le> ?u * \<bar>of_int j - q / ?u\<bar>"
    using u round_even_nearest[of "q / ?u" j] by (simp add: mult_left_mono)
  also have "\<dots> = \<bar>of_int j * ?u - q\<bar>"
    using u unfolding e by (simp add: abs_mult)
  finally show ?thesis .
qed

lemma fl_half_ulp:
  assumes "q \<noteq> 0"
  shows "\<bar>fl q - q\<bar> \<le> pow2 (expo \<bar>q\<bar> - 53)"
proof -
  let ?u = "pow2 (expo \<bar>q\<bar> - 52)"
  have u: "0 < ?u" by (rule pow2_pos)
  have e: "of_int i * ?u - q = ?u * (of_int i - q / ?u)" for i
    using u by (simp add: field_simps)
  have "\<bar>fl q - q\<bar> = ?u * \<bar>of_int (round_even (q / ?u)) - q / ?u\<bar>"
    using u unfolding fl_unfold[OF assms] e by (simp add: abs_mult)
  also have "\<dots> \<le> ?u * (1 / 2)"
    using u round_even_half[of "q / ?u"] by (simp add: mult_left_mono)
  also have "\<dots> = pow2 (expo \<bar>q\<bar> - 53)"
  proof -
    have "pow2 1 = 2" by (simp add: pow2_def)
    then show ?thesis using pow2_add[of "expo \<bar>q\<bar> - 53" 1] by simp
  qed
  finally show ?thesis .
qed

lemma fl_significand:
  assumes "q \<noteq> 0"
  shows "2 ^ 52 \<le> \<bar>round_even (q / pow2 (expo \<bar>q\<bar> - 52))\<bar> \<and>
         \<bar>round_even (q / pow2 (expo \<bar>q\<bar> - 52))\<bar> \<le> 2 ^ 53"
proof -
  let ?e = "expo \<bar>q\<bar>"
  let ?u = "pow2 (?e - 52)"
  have u: "0 < ?u" by (rule pow2_pos)
  have a: "0 < \<bar>q\<bar>" using assms by simp
  have b: "pow2 ?e \<le> \<bar>q\<bar>" "\<bar>q\<bar> < pow2 (?e + 1)" using expo_bounds[OF a] by simp_all
  have p52: "pow2 52 = 2 ^ 52" and p53: "pow2 53 = 2 ^ 53" by (simp_all add: pow2_def)
  have "?e = 52 + (?e - 52)" by simp
  then have "pow2 ?e = pow2 52 * ?u" by (metis pow2_add)
  then have s1: "pow2 ?e = 2 ^ 52 * ?u" by (simp only: p52)
  have "?e + 1 = 53 + (?e - 52)" by simp
  then have "pow2 (?e + 1) = pow2 53 * ?u" by (simp only: pow2_add)
  then have s2: "pow2 (?e + 1) = 2 ^ 53 * ?u" by (simp only: p53)
  have lo: "2 ^ 52 \<le> \<bar>q\<bar> / ?u" using b(1) u unfolding s1 by (simp add: field_simps)
  have hi: "\<bar>q\<bar> / ?u < 2 ^ 53" using b(2) u unfolding s2 by (simp add: field_simps)
  show ?thesis
  proof (cases "0 < q")
    case True
    then have x: "(of_int (2 ^ 52) :: rat) \<le> q / ?u" "q / ?u \<le> of_int (2 ^ 53)"
      using lo hi by simp_all
    show ?thesis using round_even_ge[OF x(1)] round_even_le[OF x(2)] by simp
  next
    case False
    then have n: "\<bar>q\<bar> = - q" using assms by simp
    have x: "(of_int (- (2 ^ 53)) :: rat) \<le> q / ?u" "q / ?u \<le> of_int (- (2 ^ 52))"
      using lo hi unfolding n by simp_all
    show ?thesis using round_even_ge[OF x(1)] round_even_le[OF x(2)] by simp
  qed
qed

subsection \<open>The number of grid nodes in binary64\<close>

text \<open>
  On floats the grid of the notebook's configuration has \<open>39\<close> nodes, as in exact
  arithmetic; with \<open>n = 2\<close> it has \<open>3\<close>, one more than the \<open>n\<close> columns of \<open>U\<close>.
\<close>

lemma grid_len64_default: "grid_len64 0 1 39 = Inr 39"
  by code_simp

lemma grid_len64_two: "grid_len64 0 1 2 = Inr 3"
  by code_simp

subsection \<open>The stepping number of the notebook's configuration\<close>

lemma fl_tenth: "fl (1 / 10) = 3602879701896397 / 2 ^ 55"
  by code_simp

text \<open>
  C5, as stated, fails on floats: the binary64 value of \<open>s\<close> is
  \<open>5764607523034234 / 2\<^sup>5\<^sup>4\<close>, printed by Python as \<^verbatim>\<open>0.31999999999999995\<close> (the output
  recorded in the notebook); it is neither the rational \<open>0.32\<close> nor the binary64 value
  nearest to it.
\<close>

theorem s_binary64_counterexample:
  "s64 0 1 39 600 12000 = Inr (5764607523034234 / 2 ^ 54) \<and>
   fl (32 / 100) = 5764607523034235 / 2 ^ 54 \<and>
   (5764607523034234 / 2 ^ 54 :: rat) \<noteq> 32 / 100"
  by code_simp

text \<open>
  C5, as the code has it. In exact arithmetic \<open>s = 0.32\<close>. In binary64 \<open>s\<close> is the
  binary64 value just below the one nearest to \<open>0.32\<close>, less than \<open>2\<^sup>-\<^sup>5\<^sup>3\<close> away from
  \<open>0.32\<close>.
\<close>

theorem s_default_value:
  "parameters default_config = Inr \<lparr>L = 1, dX = 1 / 40, dT = 20, s = 32 / 100\<rparr> \<and>
   s64 0 1 39 600 12000 = Inr (fl (32 / 100) - 1 / 2 ^ 54) \<and>
   \<bar>fl (32 / 100) - 1 / 2 ^ 54 - 32 / 100\<bar> < 1 / 2 ^ 53"
proof -
  have a: "parameters default_config = Inr \<lparr>L = 1, dX = 1 / 40, dT = 20, s = 32 / 100\<rparr>"
    using parameters_default by simp
  have b: "s64 0 1 39 600 12000 = Inr (fl (32 / 100) - 1 / 2 ^ 54)" by code_simp
  have c: "\<bar>fl (32 / 100) - 1 / 2 ^ 54 - 32 / 100\<bar> < 1 / 2 ^ 53" by code_simp
  show ?thesis using a b c by blast
qed

end
